theory Spec2Isabelle
  imports Complex_Main "HOL-Library.Word" "HOL-Library.Signed_Division" "HOL-Library.Multiset"
begin

section \<open>The fog node of \<open>main.go\<close>: data model\<close>

text \<open>
  Conventions of the embedding.
  \<^item> Go's \<open>int\<close> and \<open>time.Duration\<close> are 64-bit signed integers (the node is built for a
    64-bit platform): they are \<open>64 word\<close>, read with \<open>sint\<close>, so that \<open>5 - t.Criticality\<close>
    wraps as it does in Go.
  \<^item> Go's \<open>float64\<close> is idealised as \<open>real\<close>: rounding, infinities and NaN are not
    modelled. Every statement below about a score or a ledger quantity is a statement
    about real arithmetic.
  \<^item> \<open>time.Time\<close> is the integer \<open>UnixNano\<close> reading of the wall clock. Each call of
    \<open>time.Now()\<close> is an input of the operation that makes it.
  \<^item> A \<open>*Task\<close> pointer is an index into the list \<open>objs\<close> of allocated task values; the
    task store and the priority queue hold such indices, so a status written through one
    is seen through the other, as in the Go program.
  \<^item> \<open>Payload\<close> and \<open>Result\<close> are opaque JSON values that no scheduling decision reads;
    they are left out, as are \<open>LastSeen\<close>, the latency average of the metrics, the
    simulated work of the four handlers and the handlers that only read the node.
  \<^item> The lock of the node is held over whole blocks of code; a step of the model is one such
    block. Cancellation of the context and the shutdown of the server are not modelled.
\<close>

type_synonym addr = nat

record Task =
  ID :: string
  Type :: string
  Priority :: "64 word"
  Criticality :: "64 word"
  SmartScore :: real
  EstimatedLatency :: "64 word"
  CPUCost :: real
  RAMCost :: real
  StorageCost :: real
  EnergyCost :: real
  NetworkLatency :: "64 word"
  Status :: string
  SubmittedAt :: int
  CompletedAt :: "int option"

text \<open>
  The three \<open>fmt.Sprintf\<close> reasons of \<open>handleSubmitTask\<close>, each with the arguments of its
  format string in their order:
  \<^item> \<open>Overloaded load queue\<close> is \<open>"Noeud surcharge: charge=%.2f, taille_queue=%d"\<close>;
  \<^item> \<open>Insufficient c ac r ar s as\<close> is
    \<open>"Ressources insuffisantes: CPU=%.2f/%.2f, RAM=%.2f/%.2f, Storage=%.2f/%.2f"\<close>;
  \<^item> \<open>LowEnergy e\<close> is \<open>"Niveau d'energie bas pour tache critique: energie=%.2f"\<close>.
\<close>

datatype reason =
  Overloaded real int
| Insufficient real real real real real real
| LowEnergy real

record RejectedTask =
  rejTask :: Task
  RejectedAt :: int
  RejectionReason :: reason
  NodeLoad :: real
  QueueSize :: int

text \<open>The local variable \<open>task\<close> of one worker goroutine, and where the goroutine stands.\<close>

datatype worker = Idle | Popped addr | Processing addr

record FogCompute =
  nodeID :: string
  nodeLocation :: string
  nodeStatus :: string
  nodeLoad :: real
  tasks :: "string \<rightharpoonup> addr"
  taskHeap :: "addr list"
  rejectedTasks :: "RejectedTask list"
  TasksProcessed :: int
  TasksRejected :: int
  availableCPU :: real
  availableRAM :: real
  availableStorage :: real
  energyLevel :: real
  objs :: "Task list"
  workers :: "worker list"

definition MaxLoadThreshold :: real where
  "MaxLoadThreshold = 0.8"

section \<open>calculateScore\<close>

text \<open>
  \<open>Duration.Seconds\<close> of the Go library: \<open>sec := d / Second; nsec := d % Second;
  return float64(sec) + float64(nsec)/1e9\<close>, with Go's truncating division.
\<close>

definition Seconds :: "64 word \<Rightarrow> real" where
  "Seconds d =
     real_of_int (sint d sdiv 1000000000) + real_of_int (sint d smod 1000000000) / 1000000000"

definition calculateScore :: "Task \<Rightarrow> real" where
  "calculateScore t =
     (let baseScore = real_of_int (sint (Priority t));
          criticalityBonus = real_of_int (sint (5 - Criticality t)) * 10;
          latencyPenalty = Seconds (EstimatedLatency t) * 0.1;
          networkPenalty = Seconds (NetworkLatency t) * 0.05;
          resourcePenalty = (CPUCost t + RAMCost t) * 5;
          storagePenalty = StorageCost t * 0.001;
          energyPenalty = EnergyCost t * 2
      in baseScore + criticalityBonus + latencyPenalty + networkPenalty +
         resourcePenalty + storagePenalty + energyPenalty)"

section \<open>The priority queue: \<open>TaskHeap\<close> under \<open>container/heap\<close>\<close>

text \<open>
  \<open>Less\<close>, \<open>Swap\<close> and the slice methods are those of \<open>TaskHeap\<close>; \<open>up\<close>, \<open>down\<close>,
  \<open>Push\<close> and \<open>Pop\<close> are the functions of the Go library package \<open>container/heap\<close> that
  call them. The first argument is the list of allocated tasks that the pointers in the
  heap refer to.
\<close>

definition Less :: "Task list \<Rightarrow> addr list \<Rightarrow> nat \<Rightarrow> nat \<Rightarrow> bool" where
  "Less m h i j = (SmartScore (m ! (h ! i)) < SmartScore (m ! (h ! j)))"

definition Swap :: "addr list \<Rightarrow> nat \<Rightarrow> nat \<Rightarrow> addr list" where
  "Swap h i j = h[i := h ! j, j := h ! i]"

text \<open>
  \<open>for { i := (j - 1) / 2; if i == j || !h.Less(j, i) { break }; h.Swap(i, j); j = i }\<close>.
  At \<open>j = 0\<close> Go computes \<open>(-1) / 2 = 0\<close>, and so does the truncated subtraction here.
\<close>

function up :: "Task list \<Rightarrow> addr list \<Rightarrow> nat \<Rightarrow> addr list" where
  "up m h j =
     (let i = (j - 1) div 2
      in if i = j \<or> \<not> Less m h j i then h else up m (Swap h i j) i)"
  by pat_completeness auto
termination
  by (relation "measure (\<lambda>(m, h, j). j)") auto

text \<open>
  \<open>for { j1 := 2*i + 1; if j1 >= n || j1 < 0 { break }; j := j1;
  if j2 := j1 + 1; j2 < n && h.Less(j2, j1) { j = j2 };
  if !h.Less(j, i) { break }; h.Swap(i, j); i = j }\<close>.
  The test \<open>j1 < 0\<close> guards against overflow of \<open>2*i + 1\<close>, which a slice index cannot reach.
\<close>

function down :: "Task list \<Rightarrow> addr list \<Rightarrow> nat \<Rightarrow> nat \<Rightarrow> addr list" where
  "down m h i n =
     (let j1 = 2 * i + 1
      in if j1 \<ge> n then h
         else let j = (if j1 + 1 < n \<and> Less m h (j1 + 1) j1 then j1 + 1 else j1)
              in if \<not> Less m h j i then h else down m (Swap h i j) j n)"
  by pat_completeness auto
termination
  by (relation "measure (\<lambda>(m, h, i, n). n - i)") auto

declare up.simps [simp del] down.simps [simp del]

definition Push :: "Task list \<Rightarrow> addr list \<Rightarrow> addr \<Rightarrow> addr list" where
  "Push m h x = up m (h @ [x]) (length (h @ [x]) - 1)"

text \<open>
  \<open>n := h.Len() - 1; h.Swap(0, n); down(h, 0, n); return h.Pop()\<close>. On an empty heap the
  Go code panics (index out of range): that is \<open>None\<close>.
\<close>

definition Pop :: "Task list \<Rightarrow> addr list \<Rightarrow> (addr \<times> addr list) option" where
  "Pop m h =
     (if h = [] then None
      else let n = length h - 1;
               h' = down m (Swap h 0 n) 0 n
           in Some (h' ! n, take n h'))"

section \<open>Admission: \<open>handleSubmitTask\<close> and \<open>rejectTask\<close>\<close>

record snapshot =
  currentLoad :: real
  queueSize :: int
  snapCPU :: real
  snapRAM :: real
  snapStorage :: real
  snapEnergy :: real

text \<open>The read-locked block at the head of \<open>handleSubmitTask\<close>.\<close>

definition takeSnapshot :: "FogCompute \<Rightarrow> snapshot" where
  "takeSnapshot fc =
     \<lparr> currentLoad = nodeLoad fc, queueSize = int (length (taskHeap fc)),
       snapCPU = availableCPU fc, snapRAM = availableRAM fc,
       snapStorage = availableStorage fc, snapEnergy = energyLevel fc \<rparr>"

definition defaultCPU :: "string \<Rightarrow> real" where
  "defaultCPU ty =
     (if ty = ''data_aggregation'' then 0.2
      else if ty = ''edge_analytics'' then 0.4
      else if ty = ''preprocessing'' then 0.1
      else if ty = ''caching'' then 0.05
      else 0.2)"

definition defaultRAM :: "string \<Rightarrow> real" where
  "defaultRAM ty =
     (if ty = ''data_aggregation'' then 0.15
      else if ty = ''edge_analytics'' then 0.3
      else if ty = ''preprocessing'' then 0.1
      else if ty = ''caching'' then 0.05
      else 0.15)"

definition defaultStorage :: "string \<Rightarrow> real" where
  "defaultStorage ty =
     (if ty = ''data_aggregation'' then 50
      else if ty = ''edge_analytics'' then 100
      else if ty = ''preprocessing'' then 25
      else if ty = ''caching'' then 10
      else 50)"

text \<open>The five \<open>if ... == 0\<close> blocks, in the order of the source; the energy default reads
  the CPU cost after its own default.\<close>

definition applyDefaults :: "Task \<Rightarrow> Task" where
  "applyDefaults t0 =
     (let t1 = (if CPUCost t0 = 0 then t0\<lparr>CPUCost := defaultCPU (Type t0)\<rparr> else t0);
          t2 = (if RAMCost t1 = 0 then t1\<lparr>RAMCost := defaultRAM (Type t1)\<rparr> else t1);
          t3 = (if StorageCost t2 = 0 then t2\<lparr>StorageCost := defaultStorage (Type t2)\<rparr> else t2);
          t4 = (if EnergyCost t3 = 0 then t3\<lparr>EnergyCost := CPUCost t3 * 0.5\<rparr> else t3);
          t5 = (if NetworkLatency t4 = 0 then t4\<lparr>NetworkLatency := 10000000\<rparr> else t4)
      in t5)"

text \<open>\<open>fmt.Sprintf("task-%d", n)\<close>: the decimal digits of \<open>n\<close>, after a minus sign when
  \<open>n\<close> is negative.\<close>

definition digit :: "nat \<Rightarrow> char" where
  "digit d = ''0123456789'' ! d"

function digits :: "nat \<Rightarrow> string" where
  "digits n = (if n < 10 then [digit n] else digits (n div 10) @ [digit (n mod 10)])"
  by pat_completeness auto
termination
  by (relation "measure id") auto

declare digits.simps [simp del]

definition taskID :: "int \<Rightarrow> string" where
  "taskID n = ''task-'' @ (if n < 0 then CHR ''-'' # digits (nat (- n)) else digits (nat n))"

definition rejectTask :: "Task \<Rightarrow> reason \<Rightarrow> real \<Rightarrow> int \<Rightarrow> int \<Rightarrow> FogCompute \<Rightarrow> FogCompute" where
  "rejectTask task rsn load qsize now fc =
     fc\<lparr> rejectedTasks := rejectedTasks fc @
            [\<lparr> rejTask = task, RejectedAt = now, RejectionReason = rsn,
               NodeLoad = load, QueueSize = qsize \<rparr>],
         TasksRejected := TasksRejected fc + 1 \<rparr>"

datatype body = Malformed | Decoded Task

datatype response =
  BadRequest
| OK Task
| ServiceUnavailable reason
| NotFound
| RetryBlocked

text \<open>The three readings of the clock that one submission makes: for the id, for
  \<open>SubmittedAt\<close>, and in \<open>rejectTask\<close>.\<close>

record readings =
  nowID :: int
  nowSubmitted :: int
  nowRejected :: int

text \<open>
  The write-locked block that ends a successful submission, and the one of a retry:
  reserve the four costs, allocate the task, store the pointer under its id, push it.
\<close>

definition enqueue :: "Task \<Rightarrow> FogCompute \<Rightarrow> FogCompute" where
  "enqueue task fc =
     (let a = length (objs fc);
          m = objs fc @ [task]
      in fc\<lparr> availableCPU := availableCPU fc - CPUCost task,
             availableRAM := availableRAM fc - RAMCost task,
             availableStorage := availableStorage fc - StorageCost task,
             energyLevel := energyLevel fc - EnergyCost task,
             tasks := (tasks fc)(ID task \<mapsto> a),
             objs := m,
             taskHeap := Push m (taskHeap fc) a \<rparr>)"

text \<open>
  Everything of \<open>handleSubmitTask\<close> after the snapshot. The gates read the snapshot; the
  locked blocks act on the node as it is when they run.
\<close>

definition submitFrom :: "snapshot \<Rightarrow> Task \<Rightarrow> readings \<Rightarrow> FogCompute \<Rightarrow> response \<times> FogCompute" where
  "submitFrom sn t0 rd fc =
     (let t1 = applyDefaults t0;
          t2 = t1\<lparr>SmartScore := calculateScore t1\<rparr>;
          task = t2\<lparr>ID := taskID (nowID rd), SubmittedAt := nowSubmitted rd\<rparr>
      in if currentLoad sn > MaxLoadThreshold \<or> queueSize sn > 50 then
           (let rsn = Overloaded (currentLoad sn) (queueSize sn)
            in (ServiceUnavailable rsn,
                rejectTask (task\<lparr>Status := ''rejected''\<rparr>) rsn
                  (currentLoad sn) (queueSize sn) (nowRejected rd) fc))
         else if CPUCost task > snapCPU sn \<or> RAMCost task > snapRAM sn
                 \<or> StorageCost task > snapStorage sn then
           (let rsn = Insufficient (CPUCost task) (snapCPU sn) (RAMCost task) (snapRAM sn)
                        (StorageCost task) (snapStorage sn)
            in (ServiceUnavailable rsn,
                rejectTask (task\<lparr>Status := ''rejected''\<rparr>) rsn
                  (currentLoad sn) (queueSize sn) (nowRejected rd) fc))
         else if 4 \<le>s Criticality task \<and> snapEnergy sn < 0.3 then
           (let rsn = LowEnergy (snapEnergy sn)
            in (ServiceUnavailable rsn,
                rejectTask (task\<lparr>Status := ''rejected''\<rparr>) rsn
                  (currentLoad sn) (queueSize sn) (nowRejected rd) fc))
         else
           (let task' = task\<lparr>Status := ''queued''\<rparr>
            in (OK task', enqueue task' fc)))"

text \<open>The task that \<open>submitFrom\<close> builds before it evaluates the gates.\<close>

definition prepared :: "Task \<Rightarrow> readings \<Rightarrow> Task" where
  "prepared t0 rd =
     (applyDefaults t0)\<lparr>SmartScore := calculateScore (applyDefaults t0),
        ID := taskID (nowID rd), SubmittedAt := nowSubmitted rd\<rparr>"

text \<open>One whole execution of the handler, with nothing running between its snapshot and
  its locked block.\<close>

definition handleSubmitTask :: "body \<Rightarrow> readings \<Rightarrow> FogCompute \<Rightarrow> response \<times> FogCompute" where
  "handleSubmitTask b rd fc =
     (case b of
        Malformed \<Rightarrow> (BadRequest, fc)
      | Decoded t0 \<Rightarrow> submitFrom (takeSnapshot fc) t0 rd fc)"

definition handleGetTask :: "string \<Rightarrow> FogCompute \<Rightarrow> response" where
  "handleGetTask taskID' fc =
     (case tasks fc taskID' of
        None \<Rightarrow> NotFound
      | Some a \<Rightarrow> OK (objs fc ! a))"

section \<open>Lookup, retry and clearing of rejected tasks\<close>

text \<open>The loop of \<open>handleRetryRejectedTask\<close>: the index of the first entry with the id.\<close>

fun findRejected :: "string \<Rightarrow> RejectedTask list \<Rightarrow> nat option" where
  "findRejected tid [] = None"
| "findRejected tid (rt # rts) =
     (if ID (rejTask rt) = tid then Some 0 else map_option Suc (findRejected tid rts))"

datatype retry_response =
  RetryNotFound
| RetryStillBlocked
| Resubmitted Task

definition handleRetryRejectedTask ::
    "string \<Rightarrow> int \<Rightarrow> FogCompute \<Rightarrow> retry_response \<times> FogCompute" where
  "handleRetryRejectedTask tid now fc =
     (case findRejected tid (rejectedTasks fc) of
        None \<Rightarrow> (RetryNotFound, fc)
      | Some foundIndex \<Rightarrow>
          (let taskToRetry = rejTask (rejectedTasks fc ! foundIndex)
           in if CPUCost taskToRetry > availableCPU fc \<or> RAMCost taskToRetry > availableRAM fc
                 \<or> StorageCost taskToRetry > availableStorage fc then
                (RetryStillBlocked, fc)
              else
                (let fc1 = fc\<lparr> rejectedTasks :=
                             take foundIndex (rejectedTasks fc) @
                             drop (foundIndex + 1) (rejectedTasks fc) \<rparr>;
                     t1 = taskToRetry\<lparr>Status := ''queued'', SubmittedAt := now\<rparr>;
                     t2 = t1\<lparr>SmartScore := calculateScore t1\<rparr>
                 in (Resubmitted t2, enqueue t2 fc1))))"

definition handleClearRejectedTasks :: "FogCompute \<Rightarrow> nat \<times> FogCompute" where
  "handleClearRejectedTasks fc = (length (rejectedTasks fc), fc\<lparr>rejectedTasks := []\<rparr>)"

section \<open>Workers, the metrics tick, and the node\<close>

definition NewFogCompute :: "string \<Rightarrow> string \<Rightarrow> FogCompute" where
  "NewFogCompute nid location =
     \<lparr> nodeID = nid, nodeLocation = location, nodeStatus = ''active'', nodeLoad = 0,
       tasks = Map.empty, taskHeap = [], rejectedTasks = [],
       TasksProcessed = 0, TasksRejected = 0,
       availableCPU = 1, availableRAM = 1, availableStorage = 1000, energyLevel = 1,
       objs = [], workers = replicate 5 Idle \<rparr>"

text \<open>
  The head of the loop of \<open>worker\<close>: an idle worker waits while the heap is empty, and
  otherwise pops it. A worker that is not idle is inside \<open>processTask\<close>.
\<close>

definition workerPop :: "nat \<Rightarrow> FogCompute \<Rightarrow> FogCompute" where
  "workerPop w fc =
     (if w < length (workers fc) \<and> workers fc ! w = Idle \<and> taskHeap fc \<noteq> [] then
        (case Pop (objs fc) (taskHeap fc) of
           None \<Rightarrow> fc
         | Some (a, h') \<Rightarrow> fc\<lparr>taskHeap := h', workers := (workers fc)[w := Popped a]\<rparr>)
      else fc)"

text \<open>The first locked block of \<open>processTask\<close>.\<close>

definition workerStart :: "nat \<Rightarrow> FogCompute \<Rightarrow> FogCompute" where
  "workerStart w fc =
     (if w < length (workers fc) then
        (case workers fc ! w of
           Popped a \<Rightarrow>
             fc\<lparr> objs := (objs fc)[a := (objs fc ! a)\<lparr>Status := ''processing''\<rparr>],
                 workers := (workers fc)[w := Processing a] \<rparr>
         | _ \<Rightarrow> fc)
      else fc)"

text \<open>The second locked block of \<open>processTask\<close>, and the counter of the metrics.\<close>

definition workerFinish :: "nat \<Rightarrow> int \<Rightarrow> FogCompute \<Rightarrow> FogCompute" where
  "workerFinish w now fc =
     (if w < length (workers fc) then
        (case workers fc ! w of
           Processing a \<Rightarrow>
             (let task = objs fc ! a
              in fc\<lparr> objs := (objs fc)[a := task\<lparr>Status := ''completed'', CompletedAt := Some now\<rparr>],
                     availableCPU := availableCPU fc + CPUCost task,
                     availableRAM := availableRAM fc + RAMCost task,
                     availableStorage := availableStorage fc + StorageCost task,
                     energyLevel := energyLevel fc + EnergyCost task,
                     TasksProcessed := TasksProcessed fc + 1,
                     workers := (workers fc)[w := Idle] \<rparr>)
         | _ \<Rightarrow> fc)
      else fc)"

text \<open>One tick of \<open>updateMetrics\<close>.\<close>

definition updateMetrics :: "FogCompute \<Rightarrow> FogCompute" where
  "updateMetrics fc = fc\<lparr>nodeLoad := real (length (taskHeap fc)) / 100\<rparr>"

text \<open>
  A run of the node is a sequence of locked blocks. \<open>Submit\<close> is one handler execution
  with nothing running between its snapshot and its locked block. \<open>SubmitStale\<close> is the
  locked block of a submission whose snapshot was read earlier, while other requests and
  workers ran in between: the handler releases the read lock before it evaluates the gates.
\<close>

datatype event =
  Submit body readings
| SubmitStale snapshot Task readings
| Retry string int
| ClearRejected
| Tick
| WorkerPop nat
| WorkerStart nat
| WorkerFinish nat int

fun exec :: "FogCompute \<Rightarrow> event \<Rightarrow> FogCompute" where
  "exec fc (Submit b rd) = snd (handleSubmitTask b rd fc)"
| "exec fc (SubmitStale sn t0 rd) = snd (submitFrom sn t0 rd fc)"
| "exec fc (Retry tid now) = snd (handleRetryRejectedTask tid now fc)"
| "exec fc ClearRejected = snd (handleClearRejectedTasks fc)"
| "exec fc Tick = updateMetrics fc"
| "exec fc (WorkerPop w) = workerPop w fc"
| "exec fc (WorkerStart w) = workerStart w fc"
| "exec fc (WorkerFinish w now) = workerFinish w now fc"

definition run :: "FogCompute \<Rightarrow> event list \<Rightarrow> FogCompute" where
  "run fc evs = foldl exec fc evs"

text \<open>The zero value of \<open>Task\<close>: what the JSON decoder starts from, so what every omitted
  field holds.\<close>

definition zeroTask :: Task where
  "zeroTask =
     \<lparr> ID = [], Type = [], Priority = 0, Criticality = 0, SmartScore = 0,
       EstimatedLatency = 0, CPUCost = 0, RAMCost = 0, StorageCost = 0, EnergyCost = 0,
       NetworkLatency = 0, Status = [], SubmittedAt = 0, CompletedAt = None \<rparr>"

text \<open>The formula of the specification, on the mathematical values of the attributes
  (latencies in nanoseconds, divided into seconds).\<close>

definition specScore :: "Task \<Rightarrow> real" where
  "specScore t =
     real_of_int (sint (Priority t))
     + (5 - real_of_int (sint (Criticality t))) * 10
     + (real_of_int (sint (EstimatedLatency t)) / 1000000000) * 0.1
     + (real_of_int (sint (NetworkLatency t)) / 1000000000) * 0.05
     + (CPUCost t + RAMCost t) * 5
     + StorageCost t * 0.001
     + EnergyCost t * 2"

section \<open>Invariants of the node\<close>

text \<open>The score of the task at position \<open>c\<close> of the heap.\<close>

definition key :: "Task list \<Rightarrow> addr list \<Rightarrow> nat \<Rightarrow> real" where
  "key m h c = SmartScore (m ! (h ! c))"

text \<open>The heap property on the first \<open>n\<close> positions: no position is below its parent.\<close>

definition heap_ok :: "Task list \<Rightarrow> addr list \<Rightarrow> nat \<Rightarrow> bool" where
  "heap_ok m h n = (\<forall>c. 0 < c \<and> c < n \<longrightarrow> key m h ((c - 1) div 2) \<le> key m h c)"

text \<open>The heap property with one hole: at \<open>j\<close> while \<open>up\<close> runs, below \<open>i\<close> while
  \<open>down\<close> runs.\<close>

definition up_inv :: "(nat \<Rightarrow> real) \<Rightarrow> nat \<Rightarrow> nat \<Rightarrow> bool" where
  "up_inv f j n =
     ((\<forall>c. 0 < c \<and> c < n \<and> c \<noteq> j \<longrightarrow> f ((c - 1) div 2) \<le> f c)
      \<and> (\<forall>c. 0 < c \<and> c < n \<and> (c - 1) div 2 = j \<and> 0 < j \<longrightarrow> f ((j - 1) div 2) \<le> f c))"

definition down_inv :: "(nat \<Rightarrow> real) \<Rightarrow> nat \<Rightarrow> nat \<Rightarrow> bool" where
  "down_inv f i n =
     ((\<forall>c. 0 < c \<and> c < n \<and> (c - 1) div 2 \<noteq> i \<longrightarrow> f ((c - 1) div 2) \<le> f c)
      \<and> (\<forall>c. 0 < c \<and> c < n \<and> (c - 1) div 2 = i \<and> 0 < i \<longrightarrow> f ((i - 1) div 2) \<le> f c))"

definition swapf :: "(nat \<Rightarrow> real) \<Rightarrow> nat \<Rightarrow> nat \<Rightarrow> nat \<Rightarrow> real" where
  "swapf f i j c = (if c = i then f j else if c = j then f i else f c)"

text \<open>The child that \<open>down\<close> compares position \<open>i\<close> with.\<close>

definition child :: "Task list \<Rightarrow> addr list \<Rightarrow> nat \<Rightarrow> nat \<Rightarrow> nat" where
  "child m h i n =
     (if 2 * i + 1 + 1 < n \<and> Less m h (2 * i + 1 + 1) (2 * i + 1) then 2 * i + 1 + 1
      else 2 * i + 1)"

text \<open>A task holds a reservation while it is queued or processing.\<close>

definition live :: "Task \<Rightarrow> bool" where
  "live t = (Status t = ''queued'' \<or> Status t = ''processing'')"

definition reserved :: "(Task \<Rightarrow> real) \<Rightarrow> Task list \<Rightarrow> real" where
  "reserved cost m = sum_list (map cost (filter live m))"

definition conserved :: "FogCompute \<Rightarrow> bool" where
  "conserved fc =
     (availableCPU fc + reserved CPUCost (objs fc) = 1
      \<and> availableRAM fc + reserved RAMCost (objs fc) = 1
      \<and> availableStorage fc + reserved StorageCost (objs fc) = 1000
      \<and> energyLevel fc + reserved EnergyCost (objs fc) = 1)"

fun holds :: "worker \<Rightarrow> addr \<Rightarrow> bool" where
  "holds Idle a = False"
| "holds (Popped b) a = (b = a)"
| "holds (Processing b) a = (b = a)"

text \<open>
  Well-formedness of the pointers: the queue holds distinct allocated tasks, all queued,
  in heap order; what a worker holds is allocated, out of the queue, held by no other
  worker, and queued or processing according to where the worker stands.
\<close>

definition wellformed :: "FogCompute \<Rightarrow> bool" where
  "wellformed fc =
     (distinct (taskHeap fc)
      \<and> (\<forall>a \<in> set (taskHeap fc). a < length (objs fc) \<and> Status (objs fc ! a) = ''queued'')
      \<and> (\<forall>w < length (workers fc). \<forall>a. holds (workers fc ! w) a \<longrightarrow>
            a < length (objs fc) \<and> a \<notin> set (taskHeap fc)
            \<and> (\<forall>w' < length (workers fc). w' \<noteq> w \<longrightarrow> \<not> holds (workers fc ! w') a))
      \<and> (\<forall>w < length (workers fc). \<forall>a.
            (workers fc ! w = Popped a \<longrightarrow> Status (objs fc ! a) = ''queued'')
            \<and> (workers fc ! w = Processing a \<longrightarrow> Status (objs fc ! a) = ''processing''))
      \<and> heap_ok (objs fc) (taskHeap fc) (length (taskHeap fc)))"

text \<open>The four declared costs of a task.\<close>

definition costs :: "Task \<Rightarrow> real \<times> real \<times> real \<times> real" where
  "costs t = (CPUCost t, RAMCost t, StorageCost t, EnergyCost t)"

text \<open>A task whose declared cpu, ram and storage costs are not negative.\<close>

definition nonneg :: "Task \<Rightarrow> bool" where
  "nonneg t = (0 \<le> CPUCost t \<and> 0 \<le> RAMCost t \<and> 0 \<le> StorageCost t)"

text \<open>The events of a serial run whose submissions declare no negative cost.\<close>

fun plainEvent :: "event \<Rightarrow> bool" where
  "plainEvent (Submit (Decoded t) rd) = nonneg t"
| "plainEvent (Submit Malformed rd) = True"
| "plainEvent (SubmitStale sn t rd) = False"
| "plainEvent (Retry tid now) = True"
| "plainEvent ClearRejected = True"
| "plainEvent Tick = True"
| "plainEvent (WorkerPop w) = True"
| "plainEvent (WorkerStart w) = True"
| "plainEvent (WorkerFinish w now) = True"

definition solvent :: "FogCompute \<Rightarrow> bool" where
  "solvent fc =
     (0 \<le> availableCPU fc \<and> 0 \<le> availableRAM fc \<and> 0 \<le> availableStorage fc
      \<and> (\<forall>t \<in> set (objs fc). nonneg t)
      \<and> (\<forall>rt \<in> set (rejectedTasks fc). nonneg (rejTask rt)))"

section \<open>Concrete nodes and requests\<close>

definition freshNode :: FogCompute where
  "freshNode = NewFogCompute ''fog-node-1'' ''edge-site-1''"

definition exampleReadings :: readings where
  "exampleReadings = \<lparr> nowID = 5, nowSubmitted = 6, nowRejected = 7 \<rparr>"

text \<open>The body \<open>{"type": "preprocessing", "priority": 1}\<close>, decoded.\<close>

definition s1Request :: Task where
  "s1Request = zeroTask\<lparr>Type := ''preprocessing'', Priority := 1\<rparr>"

definition s1Task :: Task where
  "s1Task =
     \<lparr> ID = ''task-5'', Type = ''preprocessing'', Priority = 1, Criticality = 0,
       SmartScore = 52.1255, EstimatedLatency = 0, CPUCost = 0.1, RAMCost = 0.1,
       StorageCost = 25, EnergyCost = 0.05, NetworkLatency = 10000000,
       Status = ''queued'', SubmittedAt = 6, CompletedAt = None \<rparr>"



text \<open>The body \<open>{"type": "preprocessing"}\<close>, decoded, and the readings of a later clock.\<close>

definition s2Request :: Task where
  "s2Request = zeroTask\<lparr>Type := ''preprocessing''\<rparr>"

definition laterReadings :: readings where
  "laterReadings = \<lparr> nowID = 8, nowSubmitted = 9, nowRejected = 10 \<rparr>"

definition s2Task :: Task where
  "s2Task =
     \<lparr> ID = ''task-8'', Type = ''preprocessing'', Priority = 0, Criticality = 0,
       SmartScore = 51.1255, EstimatedLatency = 0, CPUCost = 0.1, RAMCost = 0.1,
       StorageCost = 25, EnergyCost = 0.05, NetworkLatency = 10000000,
       Status = ''queued'', SubmittedAt = 9, CompletedAt = None \<rparr>"

definition twoSubmissions :: "event list" where
  "twoSubmissions =
     [Submit (Decoded s1Request) exampleReadings, Submit (Decoded s2Request) laterReadings]"

text \<open>A snapshot read when the queue held 51 tasks, and one read at energy level 0.1.\<close>

definition fullQueueSnapshot :: snapshot where
  "fullQueueSnapshot =
     \<lparr> currentLoad = 0, queueSize = 51, snapCPU = 1, snapRAM = 1, snapStorage = 1000,
       snapEnergy = 1 \<rparr>"

definition lowEnergySnapshot :: snapshot where
  "lowEnergySnapshot =
     \<lparr> currentLoad = 0, queueSize = 0, snapCPU = 1, snapRAM = 1, snapStorage = 1000,
       snapEnergy = 0.1 \<rparr>"

text \<open>A node whose energy level is 0.1 and that is otherwise new: its snapshot is
  \<open>lowEnergySnapshot\<close>.\<close>

definition lowEnergyNode :: FogCompute where
  "lowEnergyNode = freshNode\<lparr>energyLevel := 0.1\<rparr>"

text \<open>Two requests that differ in their criticality only.\<close>

definition routineRequest :: Task where
  "routineRequest = zeroTask\<lparr>Type := ''preprocessing'', Priority := 1, Criticality := 3\<rparr>"

definition criticalRequest :: Task where
  "criticalRequest = zeroTask\<lparr>Type := ''preprocessing'', Priority := 1, Criticality := 5\<rparr>"

text \<open>
  A request that reserves 0.95 of the energy, and the node after the run in which a fresh
  node admits it and then rejects the critical request at the energy gate.
\<close>

definition hungryRequest :: Task where
  "hungryRequest = zeroTask\<lparr>Type := ''caching'', EnergyCost := 0.95\<rparr>"

definition drainedNode :: FogCompute where
  "drainedNode =
     run freshNode
       [Submit (Decoded hungryRequest) exampleReadings,
        Submit (Decoded criticalRequest) laterReadings]"

text \<open>The body \<open>{"type": "caching", "cpu_cost": 2}\<close>, decoded: more CPU than a node has.\<close>

definition greedyRequest :: Task where
  "greedyRequest = zeroTask\<lparr>Type := ''caching'', CPUCost := 2\<rparr>"

text \<open>The second task of \<open>twoSubmissions\<close>, had it been submitted at the clock readings
  of the first.\<close>

definition s2TaskSameClock :: Task where
  "s2TaskSameClock = s2Task\<lparr>ID := ''task-5'', SubmittedAt := 6\<rparr>"

text \<open>The bodies \<open>{"type": "caching", "cpu_cost": -1}\<close> and
  \<open>{"type": "caching", "energy_cost": 2}\<close>, decoded.\<close>

definition negativeRequest :: Task where
  "negativeRequest = zeroTask\<lparr>Type := ''caching'', CPUCost := - 1\<rparr>"

definition thirstyRequest :: Task where
  "thirstyRequest = zeroTask\<lparr>Type := ''caching'', EnergyCost := 2\<rparr>"

text \<open>
  The body \<open>{"type": "edge_analytics", "cpu_cost": 0.6}\<close>, decoded, and two submissions of
  it that both read their snapshot before either takes the write lock.
\<close>

definition bigRequest :: Task where
  "bigRequest = zeroTask\<lparr>Type := ''edge_analytics'', CPUCost := 0.6\<rparr>"

definition racingSubmissions :: "event list" where
  "racingSubmissions =
     [SubmitStale (takeSnapshot freshNode) bigRequest exampleReadings,
      SubmitStale (takeSnapshot freshNode) bigRequest laterReadings]"

definition oneTaskRun :: "event list" where
  "oneTaskRun =
     [Submit (Decoded s1Request) exampleReadings, WorkerPop 0, WorkerStart 0, WorkerFinish 0 9]"

section \<open>Properties of the score\<close>

lemma Seconds_eq: "Seconds d = real_of_int (sint d) / 1000000000"
proof -
  have "sint d sdiv 1000000000 * 1000000000 + sint d smod 1000000000 = sint d"
    by (rule sdiv_mult_smod_eq)
  then have "real_of_int (sint d) =
      real_of_int (sint d sdiv 1000000000 * 1000000000 + sint d smod 1000000000)"
    by simp
  then show ?thesis
    unfolding Seconds_def by (simp add: field_simps)
qed




lemma specScore_bookkeeping:
  "specScore (t\<lparr>SmartScore := x, ID := i, SubmittedAt := n, Status := s\<rparr>) = specScore t"
  by (simp add: specScore_def)

lemma submitFrom_OK:
  assumes "submitFrom sn t0 rd fc = (OK t, fc')"
  shows "t = (applyDefaults t0)\<lparr>SmartScore := calculateScore (applyDefaults t0),
               ID := taskID (nowID rd), SubmittedAt := nowSubmitted rd, Status := ''queued''\<rparr>
         \<and> fc' = enqueue t fc"
  using assms by (auto simp: submitFrom_def Let_def split: if_splits)

lemma enqueue_stored:
  "tasks (enqueue t fc) (ID t) = Some (length (objs fc))
   \<and> objs (enqueue t fc) ! length (objs fc) = t"
  by (simp add: enqueue_def Let_def)

lemma handleSubmitTask_OK:
  assumes "handleSubmitTask (Decoded t0) rd fc = (OK t, fc')"
  shows "t = (applyDefaults t0)\<lparr>SmartScore := calculateScore (applyDefaults t0),
               ID := taskID (nowID rd), SubmittedAt := nowSubmitted rd, Status := ''queued''\<rparr>"
    and "fc' = enqueue t fc"
  using assms submitFrom_OK [of "takeSnapshot fc" t0 rd fc t fc']
  by (simp_all add: handleSubmitTask_def)

lemmas eval_submit =
  handleSubmitTask_def submitFrom_def takeSnapshot_def NewFogCompute_def freshNode_def
  exampleReadings_def zeroTask_def applyDefaults_def defaultCPU_def defaultRAM_def
  defaultStorage_def Let_def MaxLoadThreshold_def calculateScore_def Seconds_eq taskID_def
  digit_def word_sle_eq digits.simps

lemma submit_s1_fresh:
  "fst (handleSubmitTask (Decoded s1Request) exampleReadings freshNode) = OK s1Task"
  by (simp add: eval_submit s1Request_def s1Task_def)





section \<open>The heap functions keep the heap property\<close>

lemma parent_less: "0 < c \<Longrightarrow> (c - 1) div 2 < (c::nat)"
  by arith

lemma parent_eq_iff:
  "0 < c \<Longrightarrow> ((c - 1) div 2 = i) = (c = 2 * i + 1 \<or> c = 2 * i + 2)" for c i :: nat
  by arith

lemma length_Swap [simp]: "length (Swap h i j) = length h"
  by (simp add: Swap_def)

lemma mset_Swap: "i < length h \<Longrightarrow> j < length h \<Longrightarrow> mset (Swap h i j) = mset h"
  unfolding Swap_def by (simp add: mset_swap)

lemma Less_key: "Less m h i j = (key m h i < key m h j)"
  by (simp add: Less_def key_def)

lemma key_Swap:
  assumes "i < length h" "j < length h" "c < length h"
  shows "key m (Swap h i j) c = swapf (key m h) i j c"
  using assms by (auto simp: key_def Swap_def swapf_def nth_list_update)

lemma up_inv_step:
  assumes inv: "up_inv f j n" and j: "j < n" and i: "i = (j - 1) div 2" and ne: "i \<noteq> j"
    and lt: "f j < f i"
  shows "up_inv (swapf f i j) i n"
proof -
  have j0: "0 < j" using i ne by (cases j) auto
  have ij: "i < j" using i parent_less [OF j0] by simp
  have p1: "\<And>c. 0 < c \<Longrightarrow> c < n \<Longrightarrow> c \<noteq> j \<Longrightarrow> f ((c - 1) div 2) \<le> f c"
    using inv by (simp add: up_inv_def)
  have p2: "\<And>c. 0 < c \<Longrightarrow> c < n \<Longrightarrow> (c - 1) div 2 = j \<Longrightarrow> f i \<le> f c"
    using inv j0 i by (simp add: up_inv_def)
  show ?thesis
    unfolding up_inv_def
  proof (intro conjI allI impI)
    fix c assume c: "0 < c \<and> c < n \<and> c \<noteq> i"
    show "swapf f i j ((c - 1) div 2) \<le> swapf f i j c"
    proof (cases "c = j")
      case True
      then show ?thesis using lt i ne by (simp add: swapf_def)
    next
      case cj: False
      show ?thesis
      proof (cases "(c - 1) div 2 = j")
        case True
        then show ?thesis using p2 [of c] c cj ne by (simp add: swapf_def)
      next
        case pj: False
        show ?thesis
        proof (cases "(c - 1) div 2 = i")
          case True
          then show ?thesis using p1 [of c] c cj lt by (simp add: swapf_def)
        next
          case False
          then show ?thesis using p1 [of c] c cj pj by (simp add: swapf_def)
        qed
      qed
    qed
  next
    fix c assume c: "0 < c \<and> c < n \<and> (c - 1) div 2 = i \<and> 0 < i"
    then have pi: "(i - 1) div 2 < i" using parent_less by blast
    have ci: "c \<noteq> i" using c by auto
    have in': "i < n" using ij j by simp
    have a: "f ((i - 1) div 2) \<le> f i" using p1 [of i] c in' ij by simp
    have lhs: "swapf f i j ((i - 1) div 2) = f ((i - 1) div 2)"
      using pi ij by (simp add: swapf_def)
    show "swapf f i j ((i - 1) div 2) \<le> swapf f i j c"
    proof (cases "c = j")
      case True
      then show ?thesis using lhs a ne by (simp add: swapf_def)
    next
      case False
      then have "f i \<le> f c" using p1 [of c] c by simp
      then show ?thesis using lhs a ci False by (simp add: swapf_def)
    qed
  qed
qed

lemma up_inv_cong:
  assumes "\<forall>c < n. f c = g c" and "up_inv f j n"
  shows "up_inv g j n"
proof -
  have par: "\<And>c. 0 < c \<Longrightarrow> c < n \<Longrightarrow> (c - 1) div 2 < n"
    using parent_less by fastforce
  show ?thesis
    unfolding up_inv_def
  proof (intro conjI allI impI)
    fix c assume c: "0 < c \<and> c < n \<and> c \<noteq> j"
    then have "f ((c - 1) div 2) \<le> f c" using assms(2) by (simp add: up_inv_def)
    then show "g ((c - 1) div 2) \<le> g c" using assms(1) par [of c] c by simp
  next
    fix c assume c: "0 < c \<and> c < n \<and> (c - 1) div 2 = j \<and> 0 < j"
    then have le: "f ((j - 1) div 2) \<le> f c" using assms(2) by (simp add: up_inv_def)
    have "j < n" using c par [of c] by auto
    then have "(j - 1) div 2 < n" using c par [of j] by simp
    then show "g ((j - 1) div 2) \<le> g c" using assms(1) le c by simp
  qed
qed

lemma length_up [simp]: "j < length h \<Longrightarrow> length (up m h j) = length h"
proof (induction m h j rule: up.induct)
  case (1 m h j)
  show ?case
  proof (cases "(j - 1) div 2 = j \<or> \<not> Less m h j ((j - 1) div 2)")
    case True
    then show ?thesis by (subst up.simps) (simp add: Let_def)
  next
    case False
    then have "0 < j" by (cases j) auto
    then have "(j - 1) div 2 < length h" using parent_less [of j] "1.prems" by simp
    then have "length (up m (Swap h ((j - 1) div 2) j) ((j - 1) div 2)) = length h"
      using "1.IH" [OF refl] False by simp
    then show ?thesis using False by (subst up.simps) (simp add: Let_def)
  qed
qed

lemma mset_up: "j < length h \<Longrightarrow> mset (up m h j) = mset h"
proof (induction m h j rule: up.induct)
  case (1 m h j)
  show ?case
  proof (cases "(j - 1) div 2 = j \<or> \<not> Less m h j ((j - 1) div 2)")
    case True
    then show ?thesis by (subst up.simps) (simp add: Let_def)
  next
    case False
    then have "0 < j" by (cases j) auto
    then have p: "(j - 1) div 2 < length h" using parent_less [of j] "1.prems" by simp
    then have "mset (up m (Swap h ((j - 1) div 2) j) ((j - 1) div 2))
        = mset (Swap h ((j - 1) div 2) j)"
      using "1.IH" [OF refl] False by simp
    then show ?thesis
      using False p "1.prems" by (subst up.simps) (simp add: Let_def mset_Swap)
  qed
qed

lemma up_heap_ok:
  "j < length h \<Longrightarrow> up_inv (key m h) j (length h) \<Longrightarrow> heap_ok m (up m h j) (length h)"
proof (induction m h j rule: up.induct)
  case (1 m h j)
  let ?i = "(j - 1) div 2"
  show ?case
  proof (cases "?i = j \<or> \<not> Less m h j ?i")
    case True
    have "key m h ((c - 1) div 2) \<le> key m h c" if "0 < c" "c < length h" for c
    proof (cases "c = j")
      case False
      then show ?thesis using "1.prems"(2) that by (simp add: up_inv_def)
    next
      case cj: True
      then have "?i \<noteq> j" using that parent_less [of j] by simp
      then show ?thesis using True cj by (simp add: Less_key)
    qed
    then have "heap_ok m h (length h)" by (simp add: heap_ok_def)
    then show ?thesis using True by (subst up.simps) (simp add: Let_def)
  next
    case False
    then have j0: "0 < j" by (cases j) auto
    then have p: "?i < length h" using parent_less [of j] "1.prems" by simp
    have lt: "key m h j < key m h ?i" using False by (simp add: Less_key)
    have "up_inv (swapf (key m h) ?i j) ?i (length h)"
      using up_inv_step [OF "1.prems"(2) "1.prems"(1) refl _ lt] False by simp
    moreover have "\<forall>c < length h. swapf (key m h) ?i j c = key m (Swap h ?i j) c"
      using key_Swap [OF p "1.prems"(1), of _ m] by simp
    ultimately have "up_inv (key m (Swap h ?i j)) ?i (length (Swap h ?i j))"
      using up_inv_cong [of "length h" "swapf (key m h) ?i j" "key m (Swap h ?i j)" ?i]
      by simp
    then have "heap_ok m (up m (Swap h ?i j) ?i) (length (Swap h ?i j))"
      using "1.IH" [OF refl] False p by simp
    then show ?thesis using False by (subst up.simps) (simp add: Let_def)
  qed
qed

lemma down_inv_step:
  assumes inv: "down_inv f i n"
    and j1: "2 * i + 1 < n"
    and j: "j = (if 2 * i + 2 < n \<and> f (2 * i + 2) < f (2 * i + 1) then 2 * i + 2 else 2 * i + 1)"
    and lt: "f j < f i"
  shows "down_inv (swapf f i j) j n"
proof -
  have ij: "i < j" using j by (simp split: if_splits)
  have pj: "(j - 1) div 2 = i" using j by (auto split: if_splits)
  have jn: "j < n" using j j1 by (simp split: if_splits)
  have j0: "0 < j" using ij by simp
  have p1: "\<And>c. 0 < c \<Longrightarrow> c < n \<Longrightarrow> (c - 1) div 2 \<noteq> i \<Longrightarrow> f ((c - 1) div 2) \<le> f c"
    using inv by (simp add: down_inv_def)
  have p2: "\<And>c. 0 < c \<Longrightarrow> c < n \<Longrightarrow> (c - 1) div 2 = i \<Longrightarrow> 0 < i
      \<Longrightarrow> f ((i - 1) div 2) \<le> f c"
    using inv by (simp add: down_inv_def)
  have small: "f j \<le> f c" if "0 < c" "c < n" "(c - 1) div 2 = i" for c
  proof -
    have "c = 2 * i + 1 \<or> c = 2 * i + 2" using that parent_eq_iff [of c i] by simp
    then show ?thesis using j that by (auto split: if_splits)
  qed
  show ?thesis
    unfolding down_inv_def
  proof (intro conjI allI impI)
    fix c assume c: "0 < c \<and> c < n \<and> (c - 1) div 2 \<noteq> j"
    show "swapf f i j ((c - 1) div 2) \<le> swapf f i j c"
    proof (cases "c = j")
      case True
      then show ?thesis using lt pj ij by (simp add: swapf_def)
    next
      case cj: False
      show ?thesis
      proof (cases "c = i")
        case True
        then have i0: "0 < i" using c by simp
        have ne: "(i - 1) div 2 \<noteq> i" "(i - 1) div 2 \<noteq> j"
          using parent_less [OF i0] ij by simp_all
        have "f ((i - 1) div 2) \<le> f j" using p2 [of j] j0 jn pj i0 by simp
        then show ?thesis using True ne by (simp add: swapf_def)
      next
        case ci: False
        show ?thesis
        proof (cases "(c - 1) div 2 = i")
          case True
          then show ?thesis using small [of c] c cj ci by (simp add: swapf_def)
        next
          case False
          then show ?thesis using p1 [of c] c cj ci by (simp add: swapf_def)
        qed
      qed
    qed
  next
    fix c assume c: "0 < c \<and> c < n \<and> (c - 1) div 2 = j \<and> 0 < j"
    then have "j < c" using parent_less [of c] by simp
    then have ne: "c \<noteq> i" "c \<noteq> j" using ij by simp_all
    have "f j \<le> f c" using p1 [of c] c ij by simp
    then show "swapf f i j ((j - 1) div 2) \<le> swapf f i j c"
      using ne pj ij by (simp add: swapf_def)
  qed
qed

lemma down_inv_cong:
  assumes "\<forall>c < n. f c = g c" and "down_inv f i n"
  shows "down_inv g i n"
proof -
  have par: "\<And>c. 0 < c \<Longrightarrow> c < n \<Longrightarrow> (c - 1) div 2 < n"
    using parent_less by fastforce
  show ?thesis
    unfolding down_inv_def
  proof (intro conjI allI impI)
    fix c assume c: "0 < c \<and> c < n \<and> (c - 1) div 2 \<noteq> i"
    then have "f ((c - 1) div 2) \<le> f c" using assms(2) by (simp add: down_inv_def)
    then show "g ((c - 1) div 2) \<le> g c" using assms(1) par [of c] c by simp
  next
    fix c assume c: "0 < c \<and> c < n \<and> (c - 1) div 2 = i \<and> 0 < i"
    then have le: "f ((i - 1) div 2) \<le> f c" using assms(2) by (simp add: down_inv_def)
    have "i < n" using c par [of c] by auto
    then have "(i - 1) div 2 < n" using c par [of i] by simp
    then show "g ((i - 1) div 2) \<le> g c" using assms(1) le c by simp
  qed
qed

lemma down_stop:
  "n \<le> 2 * i + 1 \<or> \<not> Less m h (child m h i n) i \<Longrightarrow> down m h i n = h"
  by (subst down.simps) (auto simp: Let_def child_def)

lemma down_rec:
  "2 * i + 1 < n \<Longrightarrow> Less m h (child m h i n) i
   \<Longrightarrow> down m h i n = down m (Swap h i (child m h i n)) (child m h i n) n"
  by (subst down.simps) (auto simp: Let_def child_def)

lemma child_bounds: "2 * i + 1 < n \<Longrightarrow> i < child m h i n \<and> child m h i n < n"
  by (simp add: child_def)

lemma down_induct [consumes 0, case_names stop rec]:
  assumes "\<And>h i. n \<le> 2 * i + 1 \<or> \<not> Less m h (child m h i n) i \<Longrightarrow> P h i"
    and "\<And>h i. 2 * i + 1 < n \<Longrightarrow> Less m h (child m h i n) i
           \<Longrightarrow> P (Swap h i (child m h i n)) (child m h i n) \<Longrightarrow> P h i"
  shows "P h i"
proof (induction "n - i" arbitrary: h i rule: less_induct)
  case less
  show ?case
  proof (cases "n \<le> 2 * i + 1 \<or> \<not> Less m h (child m h i n) i")
    case True
    then show ?thesis by (rule assms(1))
  next
    case False
    then have a: "2 * i + 1 < n" "Less m h (child m h i n) i" by auto
    have "n - child m h i n < n - i" using child_bounds [OF a(1), of m h] by arith
    then have "P (Swap h i (child m h i n)) (child m h i n)" by (rule less)
    then show ?thesis using a assms(2) by blast
  qed
qed

lemma length_down [simp]: "n \<le> length h \<Longrightarrow> length (down m h i n) = length h"
proof (induction h i rule: down_induct [where n = n and m = m])
  case (stop h i)
  then show ?case by (simp add: down_stop)
next
  case (rec h i)
  then show ?case by (simp add: down_rec)
qed

lemma mset_down: "n \<le> length h \<Longrightarrow> mset (down m h i n) = mset h"
proof (induction h i rule: down_induct [where n = n and m = m])
  case (stop h i)
  then show ?case by (simp add: down_stop)
next
  case (rec h i)
  have "i < length h" "child m h i n < length h"
    using child_bounds [OF rec.hyps(1), of m h] rec.prems by simp_all
  then show ?case using rec by (simp add: down_rec mset_Swap)
qed

lemma down_nth_ge: "n \<le> length h \<Longrightarrow> n \<le> c \<Longrightarrow> down m h i n ! c = h ! c"
proof (induction h i rule: down_induct [where n = n and m = m])
  case (stop h i)
  then show ?case by (simp add: down_stop)
next
  case (rec h i)
  have "i < n" "child m h i n < n"
    using child_bounds [OF rec.hyps(1), of m h] by simp_all
  then have "Swap h i (child m h i n) ! c = h ! c"
    using rec.prems by (simp add: Swap_def)
  then show ?case using rec by (simp add: down_rec)
qed

lemma down_heap_ok:
  "n \<le> length h \<Longrightarrow> down_inv (key m h) i n \<Longrightarrow> heap_ok m (down m h i n) n"
proof (induction h i rule: down_induct [where n = n and m = m])
  case (stop h i)
  have "key m h ((c - 1) div 2) \<le> key m h c" if c: "0 < c" "c < n" for c
  proof (cases "(c - 1) div 2 = i")
    case False
    then show ?thesis using stop.prems(2) c by (simp add: down_inv_def)
  next
    case True
    then have cc: "c = 2 * i + 1 \<or> c = 2 * i + 2" using parent_eq_iff [of c i] c by simp
    then have in_range: "2 * i + 1 < n" using c by auto
    then have nl: "\<not> Less m h (child m h i n) i" using stop.hyps by simp
    have "key m h i \<le> key m h c"
      using cc nl c by (auto simp: child_def Less_key split: if_splits)
    then show ?thesis using True by simp
  qed
  then have "heap_ok m h n" by (simp add: heap_ok_def)
  then show ?case using stop.hyps by (simp add: down_stop)
next
  case (rec h i)
  let ?j = "child m h i n"
  have b: "i < n" "?j < n" using child_bounds [OF rec.hyps(1), of m h] by simp_all
  have jdef: "?j = (if 2 * i + 2 < n \<and> key m h (2 * i + 2) < key m h (2 * i + 1)
      then 2 * i + 2 else 2 * i + 1)"
    by (simp add: child_def Less_key)
  have lt: "key m h ?j < key m h i" using rec.hyps(2) by (simp add: Less_key)
  have "down_inv (swapf (key m h) i ?j) ?j n"
    by (rule down_inv_step [OF rec.prems(2) rec.hyps(1) jdef lt])
  moreover have "\<forall>c < n. swapf (key m h) i ?j c = key m (Swap h i ?j) c"
    using key_Swap [of i h ?j _ m] b rec.prems(1) by simp
  ultimately have "down_inv (key m (Swap h i ?j)) ?j n"
    using down_inv_cong by blast
  then have "heap_ok m (down m (Swap h i ?j) ?j n) n"
    using rec.IH rec.prems(1) by simp
  then show ?case using rec.hyps by (simp add: down_rec)
qed

lemma heap_ok_root: "heap_ok m h n \<Longrightarrow> c < n \<Longrightarrow> key m h 0 \<le> key m h c"
proof (induction c rule: less_induct)
  case (less c)
  show ?case
  proof (cases "c = 0")
    case True
    then show ?thesis by simp
  next
    case False
    then have c0: "0 < c" by simp
    have p: "(c - 1) div 2 < c" by (rule parent_less [OF c0])
    have "key m h 0 \<le> key m h ((c - 1) div 2)"
      using less.IH [OF p less.prems(1)] p less.prems(2) by simp
    also have "\<dots> \<le> key m h c"
      using less.prems c0 by (simp add: heap_ok_def)
    finally show ?thesis .
  qed
qed

lemma heap_ok_min:
  assumes "heap_ok m h (length h)" "b \<in> set h" 
  shows "SmartScore (m ! (h ! 0)) \<le> SmartScore (m ! b)"
proof -
  obtain c where "c < length h" "h ! c = b"
    using assms(2) by (auto simp: in_set_conv_nth)
  then show ?thesis
    using heap_ok_root [OF assms(1), of c] by (simp add: key_def)
qed

lemma heap_ok_cong:
  assumes "\<forall>c < n. key m h c = key m' h' c" 
  shows "heap_ok m h n = heap_ok m' h' n"
proof -
  have par: "\<And>c. 0 < c \<Longrightarrow> c < n \<Longrightarrow> (c - 1) div 2 < n"
    using parent_less by fastforce
  show ?thesis
    unfolding heap_ok_def using assms par by (metis (no_types, lifting))
qed

lemma Push_props:
  assumes "heap_ok m h (length h)"
  shows "heap_ok m (Push m h x) (length (Push m h x))"
    and "mset (Push m h x) = mset h + {#x#}"
    and "length (Push m h x) = Suc (length h)"
proof -
  let ?h = "h @ [x]"
  have keys: "\<forall>c < length h. key m ?h c = key m h c"
    by (simp add: key_def nth_append)
  have "up_inv (key m ?h) (length h) (length ?h)"
    unfolding up_inv_def
  proof (intro conjI allI impI)
    fix c assume c: "0 < c \<and> c < length ?h \<and> c \<noteq> length h"
    then have cl: "c < length h" by simp
    then have "(c - 1) div 2 < length h" using parent_less [of c] c by simp
    then show "key m ?h ((c - 1) div 2) \<le> key m ?h c"
      using assms c cl keys by (simp add: heap_ok_def)
  next
    fix c assume c: "0 < c \<and> c < length ?h \<and> (c - 1) div 2 = length h \<and> 0 < length h"
    then have "length h < c" using parent_less [of c] by simp
    then show "key m ?h ((length h - 1) div 2) \<le> key m ?h c" using c by simp
  qed
  then have "heap_ok m (up m ?h (length h)) (length ?h)"
    using up_heap_ok [of "length h" ?h m] by simp
  then show "heap_ok m (Push m h x) (length (Push m h x))"
    by (simp add: Push_def)
  show "mset (Push m h x) = mset h + {#x#}"
    by (simp add: Push_def mset_up)
  show "length (Push m h x) = Suc (length h)"
    by (simp add: Push_def)
qed

lemma Pop_props:
  assumes ok: "heap_ok m h (length h)" and ne: "h \<noteq> []"
  shows "\<exists>h'. Pop m h = Some (h ! 0, h') \<and> heap_ok m h' (length h')
              \<and> mset h = mset h' + {#h ! 0#}"
proof -
  let ?n = "length h - 1"
  let ?s = "Swap h 0 ?n"
  let ?d = "down m ?s 0 ?n"
  have n: "?n < length h" using ne by (cases h) simp_all
  have len: "length ?d = length h" by simp
  have last: "?d ! ?n = h ! 0"
  proof -
    have "?d ! ?n = ?s ! ?n" by (rule down_nth_ge) simp_all
    also have "\<dots> = h ! 0" using n by (simp add: Swap_def)
    finally show ?thesis .
  qed
  have inv: "down_inv (key m ?s) 0 ?n"
    unfolding down_inv_def
  proof (intro conjI allI impI)
    fix c assume c: "0 < c \<and> c < ?n \<and> (c - 1) div 2 \<noteq> 0"
    then have p: "0 < (c - 1) div 2" "(c - 1) div 2 < ?n" using parent_less [of c] by simp_all
    have "key m ?s c = key m h c" "key m ?s ((c - 1) div 2) = key m h ((c - 1) div 2)"
      using c p n by (simp_all add: key_def Swap_def)
    moreover have "key m h ((c - 1) div 2) \<le> key m h c"
    proof -
      have "0 < c" "c < length h" using c by arith+
      then show ?thesis using ok unfolding heap_ok_def by blast
    qed
    ultimately show "key m ?s ((c - 1) div 2) \<le> key m ?s c"
      by simp
  next
    fix c assume "0 < c \<and> c < ?n \<and> (c - 1) div 2 = 0 \<and> (0::nat) < 0"
    then show "key m ?s ((0 - 1) div 2) \<le> key m ?s c" by simp
  qed
  have "heap_ok m ?d ?n" using down_heap_ok [OF _ inv] by simp
  moreover have "\<forall>c < ?n. key m ?d c = key m (take ?n ?d) c"
    by (simp add: key_def)
  ultimately have ok': "heap_ok m (take ?n ?d) (length (take ?n ?d))"
    using heap_ok_cong [of ?n m ?d m "take ?n ?d"] by simp
  have sn: "Suc ?n = length h" using ne by (cases h) simp_all
  have "take (Suc ?n) ?d = take ?n ?d @ [?d ! ?n]"
    using n len by (intro take_Suc_conv_app_nth) simp
  moreover have "take (Suc ?n) ?d = ?d"
    using sn len by simp
  ultimately have split: "mset ?d = mset (take ?n ?d @ [?d ! ?n])"
    by simp
  have "mset ?d = mset (take ?n ?d) + {#?d ! ?n#}"
    unfolding split by simp
  moreover have "mset ?d = mset h"
    using n ne by (simp add: mset_down mset_Swap)
  ultimately have "mset h = mset (take ?n ?d) + {#h ! 0#}"
    using last by simp
  moreover have "Pop m h = Some (h ! 0, take ?n ?d)"
    using ne last by (simp add: Pop_def Let_def)
  ultimately show ?thesis using ok' by blast
qed

section \<open>Reservations are conserved\<close>

lemma reserved_Nil [simp]: "reserved f [] = 0"
  by (simp add: reserved_def)

lemma reserved_append:
  "reserved f (m @ [t]) = reserved f m + (if live t then f t else 0)"
  by (simp add: reserved_def)

lemma reserved_Cons:
  "reserved f (t # m) = (if live t then f t else 0) + reserved f m"
  by (simp add: reserved_def)

lemma reserved_update:
  "a < length m \<Longrightarrow>
     reserved f (m[a := t]) =
       reserved f m - (if live (m ! a) then f (m ! a) else 0) + (if live t then f t else 0)"
proof (induction m arbitrary: a)
  case Nil
  then show ?case by simp
next
  case (Cons x m)
  show ?case
  proof (cases a)
    case 0
    then show ?thesis by (simp add: reserved_Cons)
  next
    case (Suc k)
    then have "k < length m" using Cons.prems by simp
    then show ?thesis using Cons.IH [of k] Suc by (simp add: reserved_Cons)
  qed
qed

lemma reserved_nonneg:
  "(\<forall>t \<in> set m. 0 \<le> f t) \<Longrightarrow> 0 \<le> reserved f m"
  by (induction m) (auto simp: reserved_Cons)

lemma conserved_enqueue:
  assumes "conserved fc" "live task"
  shows "conserved (enqueue task fc)"
  using assms by (simp add: conserved_def enqueue_def Let_def reserved_append)

lemma conserved_rejectTask: "conserved (rejectTask t r l q n fc) = conserved fc"
  by (simp add: conserved_def rejectTask_def)

lemma live_queued: "Status t = ''queued'' \<Longrightarrow> live t"
  by (simp add: live_def)

lemma conserved_submitFrom:
  assumes "conserved fc"
  shows "conserved (snd (submitFrom sn t0 rd fc))"
  using assms
  by (simp add: submitFrom_def Let_def conserved_rejectTask conserved_enqueue live_def)

lemma conserved_handleSubmitTask:
  assumes "conserved fc"
  shows "conserved (snd (handleSubmitTask b rd fc))"
  using assms by (cases b) (simp_all add: handleSubmitTask_def conserved_submitFrom)

lemma conserved_rejected_update: "conserved (fc\<lparr>rejectedTasks := r\<rparr>) = conserved fc"
  by (simp add: conserved_def)

lemma conserved_retry:
  assumes "conserved fc"
  shows "conserved (snd (handleRetryRejectedTask tid now fc))"
  using assms
  by (simp add: handleRetryRejectedTask_def Let_def conserved_enqueue conserved_rejected_update
      live_def split: option.splits)

lemma conserved_clear: "conserved (snd (handleClearRejectedTasks fc)) = conserved fc"
  by (simp add: handleClearRejectedTasks_def conserved_def)

lemma conserved_updateMetrics: "conserved (updateMetrics fc) = conserved fc"
  by (simp add: updateMetrics_def conserved_def)

lemma conserved_workerPop: "conserved (workerPop w fc) = conserved fc"
  by (simp add: workerPop_def conserved_def split: option.splits)

section \<open>The pointers stay well-formed\<close>

lemma wf_distinct: "wellformed fc \<Longrightarrow> distinct (taskHeap fc)"
  by (simp add: wellformed_def)

lemma wf_heap_ok: "wellformed fc \<Longrightarrow> heap_ok (objs fc) (taskHeap fc) (length (taskHeap fc))"
  by (simp add: wellformed_def)

lemma wf_heapD:
  "wellformed fc \<Longrightarrow> a \<in> set (taskHeap fc) \<Longrightarrow> a < length (objs fc) \<and> Status (objs fc ! a) = ''queued''"
  by (simp add: wellformed_def)

lemma wf_holdsD:
  "wellformed fc \<Longrightarrow> w < length (workers fc) \<Longrightarrow> holds (workers fc ! w) a \<Longrightarrow>
     a < length (objs fc) \<and> a \<notin> set (taskHeap fc)
     \<and> (\<forall>w' < length (workers fc). w' \<noteq> w \<longrightarrow> \<not> holds (workers fc ! w') a)"
  unfolding wellformed_def by blast

lemma wf_PoppedD:
  "wellformed fc \<Longrightarrow> w < length (workers fc) \<Longrightarrow> workers fc ! w = Popped a \<Longrightarrow>
     Status (objs fc ! a) = ''queued''"
  unfolding wellformed_def by blast

lemma wf_ProcessingD:
  "wellformed fc \<Longrightarrow> w < length (workers fc) \<Longrightarrow> workers fc ! w = Processing a \<Longrightarrow>
     Status (objs fc ! a) = ''processing''"
  unfolding wellformed_def by blast

lemma wfI:
  assumes "distinct (taskHeap fc)"
    and "\<And>a. a \<in> set (taskHeap fc) \<Longrightarrow> a < length (objs fc) \<and> Status (objs fc ! a) = ''queued''"
    and "\<And>w a. w < length (workers fc) \<Longrightarrow> holds (workers fc ! w) a \<Longrightarrow>
            a < length (objs fc) \<and> a \<notin> set (taskHeap fc)
            \<and> (\<forall>w' < length (workers fc). w' \<noteq> w \<longrightarrow> \<not> holds (workers fc ! w') a)"
    and "\<And>w a. w < length (workers fc) \<Longrightarrow> workers fc ! w = Popped a \<Longrightarrow>
            Status (objs fc ! a) = ''queued''"
    and "\<And>w a. w < length (workers fc) \<Longrightarrow> workers fc ! w = Processing a \<Longrightarrow>
            Status (objs fc ! a) = ''processing''"
    and "heap_ok (objs fc) (taskHeap fc) (length (taskHeap fc))"
  shows "wellformed fc"
  unfolding wellformed_def using assms by blast

lemma wf_NewFogCompute: "wellformed (NewFogCompute n l)"
  by (rule wfI) (auto simp: NewFogCompute_def heap_ok_def nth_replicate)

lemma conserved_NewFogCompute: "conserved (NewFogCompute n l)"
  by (simp add: conserved_def NewFogCompute_def)

lemma heap_ok_objs:
  assumes "\<forall>a \<in> set h. SmartScore (m' ! a) = SmartScore (m ! a)"
  shows "heap_ok m' h (length h) = heap_ok m h (length h)"
  by (rule heap_ok_cong) (use assms in \<open>simp add: key_def\<close>)

lemma wf_enqueue:
  assumes wf: "wellformed fc" and st: "Status task = ''queued''"
  shows "wellformed (enqueue task fc)"
proof -
  let ?a = "length (objs fc)"
  let ?m = "objs fc @ [task]"
  let ?h = "Push ?m (taskHeap fc) ?a"
  have fresh: "?a \<notin> set (taskHeap fc)"
    using wf_heapD [OF wf, of ?a] by auto
  have old: "\<forall>a \<in> set (taskHeap fc). ?m ! a = objs fc ! a"
    using wf_heapD [OF wf] by (simp add: nth_append)
  have ok0: "heap_ok ?m (taskHeap fc) (length (taskHeap fc))"
    using wf_heap_ok [OF wf] heap_ok_objs [of "taskHeap fc" ?m "objs fc"] old by simp
  note push = Push_props [OF ok0, of ?a]
  have mset: "mset ?h = mset (?a # taskHeap fc)"
    using push(2) by simp
  have set: "set ?h = insert ?a (set (taskHeap fc))"
    using mset_eq_setD [OF mset] by simp
  have dist: "distinct ?h"
    using mset_eq_imp_distinct_iff [OF mset] fresh wf_distinct [OF wf] by simp
  have flds: "taskHeap (enqueue task fc) = ?h" "objs (enqueue task fc) = ?m"
    "workers (enqueue task fc) = workers fc"
    by (simp_all add: enqueue_def Let_def)
  show ?thesis
  proof (rule wfI)
    show "distinct (taskHeap (enqueue task fc))" using dist flds by simp
  next
    fix a assume "a \<in> set (taskHeap (enqueue task fc))"
    then have "a = ?a \<or> a \<in> set (taskHeap fc)" using set flds by simp
    then show "a < length (objs (enqueue task fc)) \<and> Status (objs (enqueue task fc) ! a) = ''queued''"
      using wf_heapD [OF wf, of a] st flds by (auto simp: nth_append)
  next
    fix w a assume w: "w < length (workers (enqueue task fc))"
      and h: "holds (workers (enqueue task fc) ! w) a"
    then have d: "a < length (objs fc) \<and> a \<notin> set (taskHeap fc)
       \<and> (\<forall>w' < length (workers fc). w' \<noteq> w \<longrightarrow> \<not> holds (workers fc ! w') a)"
      using wf_holdsD [OF wf, of w a] flds by simp
    then show "a < length (objs (enqueue task fc)) \<and> a \<notin> set (taskHeap (enqueue task fc))
       \<and> (\<forall>w' < length (workers (enqueue task fc)). w' \<noteq> w
             \<longrightarrow> \<not> holds (workers (enqueue task fc) ! w') a)"
      using flds set by auto
  next
    fix w a assume w: "w < length (workers (enqueue task fc))"
      and p: "workers (enqueue task fc) ! w = Popped a"
    then have "holds (workers fc ! w) a" using flds by simp
    then have "a < length (objs fc)" using wf_holdsD [OF wf, of w a] w flds by simp
    then show "Status (objs (enqueue task fc) ! a) = ''queued''"
      using wf_PoppedD [OF wf, of w a] w p flds by (simp add: nth_append)
  next
    fix w a assume w: "w < length (workers (enqueue task fc))"
      and p: "workers (enqueue task fc) ! w = Processing a"
    then have "holds (workers fc ! w) a" using flds by simp
    then have "a < length (objs fc)" using wf_holdsD [OF wf, of w a] w flds by simp
    then show "Status (objs (enqueue task fc) ! a) = ''processing''"
      using wf_ProcessingD [OF wf, of w a] w p flds by (simp add: nth_append)
  next
    show "heap_ok (objs (enqueue task fc)) (taskHeap (enqueue task fc))
        (length (taskHeap (enqueue task fc)))"
      using push(1) flds by simp
  qed
qed


lemma wf_rejectTask: "wellformed (rejectTask t r l q n fc) = wellformed fc"
  by (simp add: wellformed_def rejectTask_def)

lemma wf_submitFrom:
  assumes "wellformed fc"
  shows "wellformed (snd (submitFrom sn t0 rd fc))"
  using assms by (simp add: submitFrom_def Let_def wf_rejectTask wf_enqueue)

lemma wf_handleSubmitTask:
  assumes "wellformed fc"
  shows "wellformed (snd (handleSubmitTask b rd fc))"
  using assms by (cases b) (simp_all add: handleSubmitTask_def wf_submitFrom)

lemma wf_rejected_update: "wellformed (fc\<lparr>rejectedTasks := r\<rparr>) = wellformed fc"
  by (simp add: wellformed_def)

lemma wf_retry:
  assumes "wellformed fc"
  shows "wellformed (snd (handleRetryRejectedTask tid now fc))"
  using assms
  by (simp add: handleRetryRejectedTask_def Let_def wf_enqueue wf_rejected_update
      split: option.splits)

lemma wf_clear: "wellformed (snd (handleClearRejectedTasks fc)) = wellformed fc"
  by (simp add: handleClearRejectedTasks_def wellformed_def)

lemma wf_updateMetrics: "wellformed (updateMetrics fc) = wellformed fc"
  by (simp add: updateMetrics_def wellformed_def)

text \<open>What a pop does in a well-formed node: the worker takes the root of the heap.\<close>

lemma workerPop_takes_root:
  assumes wf: "wellformed fc" and w: "w < length (workers fc)" and idle: "workers fc ! w = Idle"
    and ne: "taskHeap fc \<noteq> []"
  shows "\<exists>h'. workerPop w fc = fc\<lparr>taskHeap := h', workers := (workers fc)[w := Popped (taskHeap fc ! 0)]\<rparr>
           \<and> heap_ok (objs fc) h' (length h')
           \<and> mset (taskHeap fc) = mset h' + {#taskHeap fc ! 0#}"
proof -
  obtain h' where pop: "Pop (objs fc) (taskHeap fc) = Some (taskHeap fc ! 0, h')"
    and ok: "heap_ok (objs fc) h' (length h')"
    and ms: "mset (taskHeap fc) = mset h' + {#taskHeap fc ! 0#}"
    using Pop_props [OF wf_heap_ok [OF wf] ne] by blast
  have "workerPop w fc = fc\<lparr>taskHeap := h', workers := (workers fc)[w := Popped (taskHeap fc ! 0)]\<rparr>"
    using w idle ne pop by (simp add: workerPop_def)
  then show ?thesis using ok ms by blast
qed

lemma workerPop_skip:
  "\<not> (w < length (workers fc) \<and> workers fc ! w = Idle \<and> taskHeap fc \<noteq> []) \<Longrightarrow> workerPop w fc = fc"
  by (auto simp: workerPop_def)

lemma holds_update:
  "v < length ws \<Longrightarrow> holds (ws[w := x] ! v) a = (if v = w then holds x a else holds (ws ! v) a)"
  by (simp add: nth_list_update)

lemma wf_workerPop:
  assumes wf: "wellformed fc"
  shows "wellformed (workerPop w fc)"
proof (cases "w < length (workers fc) \<and> workers fc ! w = Idle \<and> taskHeap fc \<noteq> []")
  case False
  then show ?thesis using wf by (simp add: workerPop_skip)
next
  case True
  let ?a = "taskHeap fc ! 0"
  obtain h' where eq: "workerPop w fc = fc\<lparr>taskHeap := h', workers := (workers fc)[w := Popped ?a]\<rparr>"
    and ok: "heap_ok (objs fc) h' (length h')"
    and ms: "mset (taskHeap fc) = mset h' + {#?a#}"
    using workerPop_takes_root [OF wf] True by blast
  have ms': "mset (taskHeap fc) = mset (?a # h')" using ms by simp
  have set: "set (taskHeap fc) = insert ?a (set h')"
    using mset_eq_setD [OF ms'] by simp
  have "distinct (?a # h')"
    using mset_eq_imp_distinct_iff [OF ms'] wf_distinct [OF wf] by simp
  then have dist: "distinct h'" and notin: "?a \<notin> set h'" by simp_all
  have a_heap: "?a \<in> set (taskHeap fc)" using set by simp
  show ?thesis
    unfolding eq
  proof (rule wfI; simp)
    show "distinct h'" by (rule dist)
  next
    fix a assume "a \<in> set h'"
    then show "a < length (objs fc) \<and> Status (objs fc ! a) = ''queued''"
      using wf_heapD [OF wf, of a] set by simp
  next
    fix v a assume v: "v < length (workers fc)"
      and h: "holds ((workers fc)[w := Popped ?a] ! v) a"
    show "a < length (objs fc) \<and> a \<notin> set h'
       \<and> (\<forall>w' < length (workers fc). w' \<noteq> v \<longrightarrow> \<not> holds ((workers fc)[w := Popped ?a] ! w') a)"
    proof (cases "v = w")
      case True
      then have a: "a = ?a" using h v by simp
      have "\<not> holds (workers fc ! w') ?a" if "w' < length (workers fc)" for w'
        using wf_holdsD [OF wf that, of ?a] a_heap by blast
      then show ?thesis
        using a notin wf_heapD [OF wf a_heap] True by (auto simp: holds_update)
    next
      case False
      then have h0: "holds (workers fc ! v) a" using h by simp
      note d = wf_holdsD [OF wf v h0]
      have "a \<noteq> ?a" using d a_heap by auto
      then show ?thesis using d set False by (auto simp: holds_update)
    qed
  next
    fix v a assume v: "v < length (workers fc)" and p: "(workers fc)[w := Popped ?a] ! v = Popped a"
    show "Status (objs fc ! a) = ''queued''"
    proof (cases "v = w")
      case True
      then have "a = ?a" using p v by simp
      then show ?thesis using wf_heapD [OF wf a_heap] by simp
    next
      case False
      then show ?thesis using wf_PoppedD [OF wf v, of a] p by simp
    qed
  next
    fix v a assume v: "v < length (workers fc)" and p: "(workers fc)[w := Popped ?a] ! v = Processing a"
    have "v \<noteq> w" using p v by auto
    then show "Status (objs fc ! a) = ''processing''"
      using wf_ProcessingD [OF wf v, of a] p by simp
  next
    show "heap_ok (objs fc) h' (length h')" by (rule ok)
  qed
qed

section \<open>Workers keep the invariants; runs of the node\<close>

lemma workerStart_skip:
  "\<not> (w < length (workers fc) \<and> (\<exists>a. workers fc ! w = Popped a)) \<Longrightarrow> workerStart w fc = fc"
  by (auto simp: workerStart_def split: worker.splits)

lemma workerStart_Popped:
  "w < length (workers fc) \<Longrightarrow> workers fc ! w = Popped a \<Longrightarrow>
     workerStart w fc =
       fc\<lparr> objs := (objs fc)[a := (objs fc ! a)\<lparr>Status := ''processing''\<rparr>],
           workers := (workers fc)[w := Processing a] \<rparr>"
  by (simp add: workerStart_def)

lemma workerFinish_skip:
  "\<not> (w < length (workers fc) \<and> (\<exists>a. workers fc ! w = Processing a)) \<Longrightarrow> workerFinish w now fc = fc"
  by (auto simp: workerFinish_def split: worker.splits)

lemma workerFinish_Processing:
  "w < length (workers fc) \<Longrightarrow> workers fc ! w = Processing a \<Longrightarrow>
     workerFinish w now fc =
       fc\<lparr> objs := (objs fc)[a := (objs fc ! a)\<lparr>Status := ''completed'', CompletedAt := Some now\<rparr>],
           availableCPU := availableCPU fc + CPUCost (objs fc ! a),
           availableRAM := availableRAM fc + RAMCost (objs fc ! a),
           availableStorage := availableStorage fc + StorageCost (objs fc ! a),
           energyLevel := energyLevel fc + EnergyCost (objs fc ! a),
           TasksProcessed := TasksProcessed fc + 1,
           workers := (workers fc)[w := Idle] \<rparr>"
  by (simp add: workerFinish_def Let_def)

text \<open>Rewriting the status of a task that a worker holds, and moving that worker on.\<close>

lemma wf_worker_step:
  assumes wf: "wellformed fc" and w: "w < length (workers fc)" and h: "holds (workers fc ! w) a"
    and score: "SmartScore t = SmartScore (objs fc ! a)"
    and nxt: "x = Idle \<or> (x = Processing a \<and> Status t = ''processing'')"
    and rest: "objs fc' = (objs fc)[a := t]" "workers fc' = (workers fc)[w := x]"
      "taskHeap fc' = taskHeap fc"
  shows "wellformed fc'"
proof -
  note d = wf_holdsD [OF wf w h]
  have other: "(objs fc)[a := t] ! b = objs fc ! b" if "b \<noteq> a" for b
    using that by simp
  have heap_ne: "b \<noteq> a" if "b \<in> set (taskHeap fc)" for b
    using that d by auto
  show ?thesis
  proof (rule wfI)
    show "distinct (taskHeap fc')" using wf_distinct [OF wf] rest by simp
  next
    fix b assume "b \<in> set (taskHeap fc')"
    then show "b < length (objs fc') \<and> Status (objs fc' ! b) = ''queued''"
      using wf_heapD [OF wf, of b] heap_ne [of b] rest by simp
  next
    fix v b assume v: "v < length (workers fc')" and hb: "holds (workers fc' ! v) b"
    then have v': "v < length (workers fc)" using rest by simp
    have hb': "holds (workers fc ! v) b"
    proof (cases "v = w")
      case True
      then have "holds x b" using hb v' rest by simp
      then have "b = a" using nxt by auto
      then show ?thesis using h True by simp
    next
      case False
      then show ?thesis using hb rest by simp
    qed
    note e = wf_holdsD [OF wf v' hb']
    have "\<not> holds (workers fc' ! w') b" if "w' < length (workers fc')" "w' \<noteq> v" for w'
    proof (cases "w' = w")
      case True
      have "b \<noteq> a" using e w True that h by auto
      then show ?thesis using True that nxt rest by auto
    next
      case False
      then show ?thesis using e that rest by simp
    qed
    then show "b < length (objs fc') \<and> b \<notin> set (taskHeap fc')
       \<and> (\<forall>w' < length (workers fc'). w' \<noteq> v \<longrightarrow> \<not> holds (workers fc' ! w') b)"
      using e rest by simp
  next
    fix v b assume v: "v < length (workers fc')" and p: "workers fc' ! v = Popped b"
    then have v': "v < length (workers fc)" using rest by simp
    have vw: "v \<noteq> w" using p v' nxt rest by auto
    then have p': "workers fc ! v = Popped b" using p rest by simp
    then have "holds (workers fc ! v) b" by simp
    then have "b \<noteq> a" using wf_holdsD [OF wf v', of b] w vw h by auto
    then show "Status (objs fc' ! b) = ''queued''"
      using wf_PoppedD [OF wf v' p'] rest by simp
  next
    fix v b assume v: "v < length (workers fc')" and p: "workers fc' ! v = Processing b"
    then have v': "v < length (workers fc)" using rest by simp
    show "Status (objs fc' ! b) = ''processing''"
    proof (cases "v = w")
      case True
      then have "x = Processing b" using p v' rest by simp
      then have "b = a" "Status t = ''processing''" using nxt by auto
      then show ?thesis using d rest by simp
    next
      case False
      then have p': "workers fc ! v = Processing b" using p rest by simp
      then have "holds (workers fc ! v) b" by simp
      then have "b \<noteq> a" using wf_holdsD [OF wf v', of b] w False h by auto
      then show ?thesis using wf_ProcessingD [OF wf v' p'] rest by simp
    qed
  next
    have "SmartScore ((objs fc)[a := t] ! b) = SmartScore (objs fc ! b)"
      if "b \<in> set (taskHeap fc)" for b
      using other [OF heap_ne [OF that]] by simp
    then have "\<forall>b \<in> set (taskHeap fc).
        SmartScore ((objs fc)[a := t] ! b) = SmartScore (objs fc ! b)"
      by blast
    then show "heap_ok (objs fc') (taskHeap fc') (length (taskHeap fc'))"
      using wf_heap_ok [OF wf] heap_ok_objs [of "taskHeap fc" "(objs fc)[a := t]" "objs fc"] rest
      by simp
  qed
qed

lemma wf_workerStart:
  assumes wf: "wellformed fc"
  shows "wellformed (workerStart w fc)"
proof (cases "w < length (workers fc) \<and> (\<exists>a. workers fc ! w = Popped a)")
  case False
  then show ?thesis using wf by (simp add: workerStart_skip)
next
  case True
  then obtain a where a: "w < length (workers fc)" "workers fc ! w = Popped a" by blast
  show ?thesis
    by (rule wf_worker_step [OF wf a(1), of a "(objs fc ! a)\<lparr>Status := ''processing''\<rparr>"
          "Processing a"])
       (simp_all add: a workerStart_Popped)
qed

lemma wf_workerFinish:
  assumes wf: "wellformed fc"
  shows "wellformed (workerFinish w now fc)"
proof (cases "w < length (workers fc) \<and> (\<exists>a. workers fc ! w = Processing a)")
  case False
  then show ?thesis using wf by (simp add: workerFinish_skip)
next
  case True
  then obtain a where a: "w < length (workers fc)" "workers fc ! w = Processing a" by blast
  show ?thesis
    by (rule wf_worker_step [OF wf a(1), of a
          "(objs fc ! a)\<lparr>Status := ''completed'', CompletedAt := Some now\<rparr>" Idle])
       (simp_all add: a workerFinish_Processing)
qed

lemma conserved_workerStart:
  assumes wf: "wellformed fc" and c: "conserved fc"
  shows "conserved (workerStart w fc)"
proof (cases "w < length (workers fc) \<and> (\<exists>a. workers fc ! w = Popped a)")
  case False
  then show ?thesis using c by (simp add: workerStart_skip)
next
  case True
  then obtain a where a: "w < length (workers fc)" "workers fc ! w = Popped a" by blast
  then have "holds (workers fc ! w) a" by simp
  then have len: "a < length (objs fc)" using wf_holdsD [OF wf a(1)] by blast
  have st: "Status (objs fc ! a) = ''queued''" by (rule wf_PoppedD [OF wf a])
  show ?thesis
    using c len st
    by (simp add: workerStart_Popped [OF a] conserved_def reserved_update live_def)
qed

lemma conserved_workerFinish:
  assumes wf: "wellformed fc" and c: "conserved fc"
  shows "conserved (workerFinish w now fc)"
proof (cases "w < length (workers fc) \<and> (\<exists>a. workers fc ! w = Processing a)")
  case False
  then show ?thesis using c by (simp add: workerFinish_skip)
next
  case True
  then obtain a where a: "w < length (workers fc)" "workers fc ! w = Processing a" by blast
  then have "holds (workers fc ! w) a" by simp
  then have len: "a < length (objs fc)" using wf_holdsD [OF wf a(1)] by blast
  have st: "Status (objs fc ! a) = ''processing''" by (rule wf_ProcessingD [OF wf a])
  show ?thesis
    using c len st
    by (simp add: workerFinish_Processing [OF a] conserved_def reserved_update live_def)
qed

lemma exec_invariant:
  assumes "wellformed fc \<and> conserved fc"
  shows "wellformed (exec fc e) \<and> conserved (exec fc e)"
  using assms
  by (cases e)
     (simp_all add: wf_handleSubmitTask conserved_handleSubmitTask wf_submitFrom
        conserved_submitFrom wf_retry conserved_retry wf_clear conserved_clear
        wf_updateMetrics conserved_updateMetrics wf_workerPop conserved_workerPop
        wf_workerStart conserved_workerStart wf_workerFinish conserved_workerFinish)

lemma run_invariant:
  assumes "wellformed fc \<and> conserved fc"
  shows "wellformed (run fc evs) \<and> conserved (run fc evs)"
  using assms unfolding run_def
proof (induction evs arbitrary: fc)
  case Nil
  then show ?case by simp
next
  case (Cons e evs)
  show ?case
    using Cons.IH [OF exec_invariant [OF Cons.prems, of e]] by simp
qed

lemma run_snoc: "run fc (evs @ [e]) = exec (run fc evs) e"
  by (simp add: run_def)

section \<open>Conservation of the ledger (C3)\<close>

lemma up_single: "up m [a] 0 = [a]"
  by (subst up.simps) simp

lemma submit_s1_state:
  "handleSubmitTask (Decoded s1Request) exampleReadings freshNode
     = (OK s1Task, enqueue s1Task freshNode)"
proof -
  obtain fc' where run: "handleSubmitTask (Decoded s1Request) exampleReadings freshNode
      = (OK s1Task, fc')"
    using submit_s1_fresh
    by (cases "handleSubmitTask (Decoded s1Request) exampleReadings freshNode") simp
  then show ?thesis
    using handleSubmitTask_OK(2) [OF run] by simp
qed

lemma enqueue_fresh_heap: "taskHeap (enqueue t freshNode) = [0]"
  by (simp add: enqueue_def freshNode_def NewFogCompute_def Push_def up_single)

lemma enqueue_workers: "workers (enqueue t fc) = workers fc"
  by (simp add: enqueue_def Let_def)

lemma enqueue_ledger:
  "availableCPU (enqueue t fc) = availableCPU fc - CPUCost t
   \<and> availableRAM (enqueue t fc) = availableRAM fc - RAMCost t
   \<and> availableStorage (enqueue t fc) = availableStorage fc - StorageCost t
   \<and> energyLevel (enqueue t fc) = energyLevel fc - EnergyCost t"
  by (simp add: enqueue_def Let_def)

lemma retry_Resubmitted:
  assumes "handleRetryRejectedTask tid now fc = (Resubmitted t, fc')"
  shows "\<exists>i. findRejected tid (rejectedTasks fc) = Some i
           \<and> t = (rejTask (rejectedTasks fc ! i))\<lparr>Status := ''queued'', SubmittedAt := now,
                   SmartScore := calculateScore ((rejTask (rejectedTasks fc ! i))
                     \<lparr>Status := ''queued'', SubmittedAt := now\<rparr>)\<rparr>
           \<and> fc' = enqueue t (fc\<lparr>rejectedTasks :=
                   take i (rejectedTasks fc) @ drop (i + 1) (rejectedTasks fc)\<rparr>)"
  using assms
  by (auto simp: handleRetryRejectedTask_def Let_def split: option.splits if_splits)


lemma costs_enqueue:
  "a < length (objs fc) \<Longrightarrow> costs (objs (enqueue t fc) ! a) = costs (objs fc ! a)"
  by (simp add: enqueue_def Let_def nth_append)

lemma objs_rejectTask: "objs (rejectTask t r l q n fc) = objs fc"
  by (simp add: rejectTask_def)

lemma costs_submitFrom:
  "a < length (objs fc) \<Longrightarrow> costs (objs (snd (submitFrom sn t0 rd fc)) ! a) = costs (objs fc ! a)"
  by (simp add: submitFrom_def Let_def objs_rejectTask costs_enqueue)

lemma costs_retry:
  "a < length (objs fc) \<Longrightarrow>
     costs (objs (snd (handleRetryRejectedTask tid now fc)) ! a) = costs (objs fc ! a)"
  by (simp add: handleRetryRejectedTask_def Let_def costs_enqueue split: option.splits)

lemma costs_workerPop: "costs (objs (workerPop w fc) ! a) = costs (objs fc ! a)"
  by (simp add: workerPop_def split: option.splits)

lemma costs_update:
  assumes "costs t = costs (m ! b)"
  shows "costs (m[b := t] ! a) = costs (m ! a)"
proof (cases "b < length m")
  case True
  then show ?thesis using assms by (cases "a = b") simp_all
next
  case False
  then show ?thesis by (simp add: list_update_beyond)
qed

lemma costs_bookkeeping:
  "costs (t\<lparr>Status := s\<rparr>) = costs t"
  "costs (t\<lparr>Status := s, CompletedAt := c\<rparr>) = costs t"
  by (simp_all add: costs_def)

lemma costs_workerStart: "costs (objs (workerStart w fc) ! a) = costs (objs fc ! a)"
  by (simp add: workerStart_def costs_update costs_bookkeeping split: worker.splits)

lemma costs_workerFinish: "costs (objs (workerFinish w now fc) ! a) = costs (objs fc ! a)"
  by (simp add: workerFinish_def Let_def costs_update costs_bookkeeping split: worker.splits)

lemma costs_exec:
  assumes "a < length (objs fc)"
  shows "costs (objs (exec fc e) ! a) = costs (objs fc ! a)"
proof (cases e)
  case (Submit b rd)
  then show ?thesis
    using assms by (cases b) (simp_all add: handleSubmitTask_def costs_submitFrom)
qed (use assms in \<open>simp_all add: costs_submitFrom costs_retry costs_workerPop costs_workerStart
      costs_workerFinish handleClearRejectedTasks_def updateMetrics_def\<close>)

text \<open>
  C3. Start from a new node and run any sequence of locked blocks: submissions (serial,
  or with a snapshot read earlier), retries, clearings, ticks and the three steps of the
  five workers. In the state reached, on each of the four dimensions, the available
  quantity plus the sum of the declared costs of the allocated tasks whose status is
  \<open>queued\<close> or \<open>processing\<close> is the capacity 1, 1, 1000, 1. The sum is over every
  task record that an admission or a retry has allocated, also one whose id a later task
  has taken over in the store. An admitted submission and a
  successful retry take the four costs of the task off the ledger in their one locked
  block, and a completion adds the four costs of the completed task back; no step changes
  the costs recorded in an allocated task, so what is added back is what was taken off.
\<close>

theorem resource_conservation:
  "conserved (run (NewFogCompute nid loc) evs)
   \<and> (\<forall>sn t0 rd fc t fc'. submitFrom sn t0 rd fc = (OK t, fc') \<longrightarrow>
         availableCPU fc' = availableCPU fc - CPUCost t
         \<and> availableRAM fc' = availableRAM fc - RAMCost t
         \<and> availableStorage fc' = availableStorage fc - StorageCost t
         \<and> energyLevel fc' = energyLevel fc - EnergyCost t)
   \<and> (\<forall>tid now fc t fc'. handleRetryRejectedTask tid now fc = (Resubmitted t, fc') \<longrightarrow>
         availableCPU fc' = availableCPU fc - CPUCost t
         \<and> availableRAM fc' = availableRAM fc - RAMCost t
         \<and> availableStorage fc' = availableStorage fc - StorageCost t
         \<and> energyLevel fc' = energyLevel fc - EnergyCost t)
   \<and> (\<forall>w a now fc. w < length (workers fc) \<and> workers fc ! w = Processing a \<longrightarrow>
         availableCPU (workerFinish w now fc) = availableCPU fc + CPUCost (objs fc ! a)
         \<and> availableRAM (workerFinish w now fc) = availableRAM fc + RAMCost (objs fc ! a)
         \<and> availableStorage (workerFinish w now fc)
             = availableStorage fc + StorageCost (objs fc ! a)
         \<and> energyLevel (workerFinish w now fc) = energyLevel fc + EnergyCost (objs fc ! a))
   \<and> (\<forall>fc e a. a < length (objs fc) \<longrightarrow> costs (objs (exec fc e) ! a) = costs (objs fc ! a))"
proof (intro conjI allI impI)
  show "conserved (run (NewFogCompute nid loc) evs)"
    using run_invariant [of "NewFogCompute nid loc" evs]
      wf_NewFogCompute conserved_NewFogCompute by simp
next
  fix sn t0 rd fc t fc'
  assume "submitFrom sn t0 rd fc = (OK t, fc')"
  then have fc': "fc' = enqueue t fc" using submitFrom_OK by blast
  show "availableCPU fc' = availableCPU fc - CPUCost t"
    "availableRAM fc' = availableRAM fc - RAMCost t"
    "availableStorage fc' = availableStorage fc - StorageCost t"
    "energyLevel fc' = energyLevel fc - EnergyCost t"
    unfolding fc' using enqueue_ledger [of t fc] by simp_all
next
  fix tid now fc t fc'
  assume "handleRetryRejectedTask tid now fc = (Resubmitted t, fc')"
  then obtain i where fc': "fc' = enqueue t (fc\<lparr>rejectedTasks :=
      take i (rejectedTasks fc) @ drop (i + 1) (rejectedTasks fc)\<rparr>)"
    using retry_Resubmitted by blast
  show "availableCPU fc' = availableCPU fc - CPUCost t"
    "availableRAM fc' = availableRAM fc - RAMCost t"
    "availableStorage fc' = availableStorage fc - StorageCost t"
    "energyLevel fc' = energyLevel fc - EnergyCost t"
    unfolding fc' by (simp_all add: enqueue_ledger)
next
  fix w a now and fc :: FogCompute
  assume a: "w < length (workers fc) \<and> workers fc ! w = Processing a"
  then have eq: "workerFinish w now fc = fc\<lparr> objs := (objs fc)[a := (objs fc ! a)\<lparr>Status := ''completed'', CompletedAt := Some now\<rparr>],
           availableCPU := availableCPU fc + CPUCost (objs fc ! a),
           availableRAM := availableRAM fc + RAMCost (objs fc ! a),
           availableStorage := availableStorage fc + StorageCost (objs fc ! a),
           energyLevel := energyLevel fc + EnergyCost (objs fc ! a),
           TasksProcessed := TasksProcessed fc + 1,
           workers := (workers fc)[w := Idle] \<rparr>"
    using workerFinish_Processing by blast
  show "availableCPU (workerFinish w now fc) = availableCPU fc + CPUCost (objs fc ! a)"
    "availableRAM (workerFinish w now fc) = availableRAM fc + RAMCost (objs fc ! a)"
    "availableStorage (workerFinish w now fc) = availableStorage fc + StorageCost (objs fc ! a)"
    "energyLevel (workerFinish w now fc) = energyLevel fc + EnergyCost (objs fc ! a)"
    unfolding eq by simp_all
next
  fix fc :: FogCompute and e a
  assume "a < length (objs fc)"
  then show "costs (objs (exec fc e) ! a) = costs (objs fc ! a)"
    by (rule costs_exec)
qed

theorem resource_conservation_witness:
  "conserved (run freshNode
      [Submit (Decoded s1Request) exampleReadings, WorkerPop 0, WorkerStart 0, WorkerFinish 0 9])
   \<and> submitFrom (takeSnapshot freshNode) s1Request exampleReadings freshNode
       = (OK s1Task, enqueue s1Task freshNode)
   \<and> availableCPU (enqueue s1Task freshNode) = 0.9
   \<and> availableRAM (enqueue s1Task freshNode) = 0.9
   \<and> availableStorage (enqueue s1Task freshNode) = 975
   \<and> energyLevel (enqueue s1Task freshNode) = 0.95"
proof -
  note inst = resource_conservation [of "''fog-node-1''" "''edge-site-1''"
      "[Submit (Decoded s1Request) exampleReadings, WorkerPop 0, WorkerStart 0, WorkerFinish 0 9]"]
  have sub: "submitFrom (takeSnapshot freshNode) s1Request exampleReadings freshNode
       = (OK s1Task, enqueue s1Task freshNode)"
    using submit_s1_state by (simp add: handleSubmitTask_def)
  have "availableCPU (enqueue s1Task freshNode) = availableCPU freshNode - CPUCost s1Task
      \<and> availableRAM (enqueue s1Task freshNode) = availableRAM freshNode - RAMCost s1Task
      \<and> availableStorage (enqueue s1Task freshNode) = availableStorage freshNode - StorageCost s1Task
      \<and> energyLevel (enqueue s1Task freshNode) = energyLevel freshNode - EnergyCost s1Task"
    using inst sub by blast
  then have "availableCPU (enqueue s1Task freshNode) = 0.9
      \<and> availableRAM (enqueue s1Task freshNode) = 0.9
      \<and> availableStorage (enqueue s1Task freshNode) = 975
      \<and> energyLevel (enqueue s1Task freshNode) = 0.95"
    by (simp add: freshNode_def NewFogCompute_def s1Task_def)
  moreover have "conserved (run freshNode
      [Submit (Decoded s1Request) exampleReadings, WorkerPop 0, WorkerStart 0, WorkerFinish 0 9])"
    using inst by (simp add: freshNode_def)
  ultimately show ?thesis using sub by simp
qed

section \<open>The queue is popped in score order (C4)\<close>

text \<open>
  C4. In every state that a run of a new node reaches, an idle worker that finds the
  queue non-empty pops a task that is in the queue and whose score is minimal among the
  tasks in the queue; the other tasks stay in the queue. So of two queued tasks with
  different scores, a pop never returns the one with the larger score: the task with the
  smaller score leaves the queue first. Nothing is stated about tasks with equal scores.
\<close>

theorem pop_returns_minimum:
  assumes "fc = run (NewFogCompute nid loc) evs"
    and "w < length (workers fc)" and "workers fc ! w = Idle" and "taskHeap fc \<noteq> []"
  shows "\<exists>a. workers (workerPop w fc) ! w = Popped a
           \<and> a \<in> set (taskHeap fc)
           \<and> (\<forall>b \<in> set (taskHeap fc). SmartScore (objs fc ! a) \<le> SmartScore (objs fc ! b))
           \<and> mset (taskHeap (workerPop w fc)) = mset (taskHeap fc) - {#a#}
           \<and> (\<forall>A B. A \<in> set (taskHeap fc) \<and> B \<in> set (taskHeap fc)
                  \<and> SmartScore (objs fc ! A) < SmartScore (objs fc ! B) \<longrightarrow> a \<noteq> B)"
proof -
  have wf: "wellformed fc"
    using run_invariant [of "NewFogCompute nid loc" evs] wf_NewFogCompute
      conserved_NewFogCompute assms(1) by simp
  let ?a = "taskHeap fc ! 0"
  obtain h' where eq: "workerPop w fc = fc\<lparr>taskHeap := h', workers := (workers fc)[w := Popped ?a]\<rparr>"
    and ms: "mset (taskHeap fc) = mset h' + {#?a#}"
    using workerPop_takes_root [OF wf assms(2,3,4)] by blast
  have popped: "workers (workerPop w fc) ! w = Popped ?a"
    unfolding eq using assms(2) by simp
  have mem: "?a \<in> set (taskHeap fc)"
    using assms(4) by simp
  have least: "SmartScore (objs fc ! ?a) \<le> SmartScore (objs fc ! b)" if "b \<in> set (taskHeap fc)" for b
    by (rule heap_ok_min [OF wf_heap_ok [OF wf] that])
  have rest: "mset (taskHeap (workerPop w fc)) = mset (taskHeap fc) - {#?a#}"
    unfolding eq using ms by simp
  have order: "?a \<noteq> B"
    if "A \<in> set (taskHeap fc) \<and> B \<in> set (taskHeap fc)
        \<and> SmartScore (objs fc ! A) < SmartScore (objs fc ! B)" for A B
    using least [of A] that by auto
  show ?thesis
    using popped mem least rest order by blast
qed

lemma submit_s2_after_s1:
  "handleSubmitTask (Decoded s2Request) laterReadings (enqueue s1Task freshNode)
     = (OK s2Task, enqueue s2Task (enqueue s1Task freshNode))"
proof -
  have "fst (handleSubmitTask (Decoded s2Request) laterReadings (enqueue s1Task freshNode))
      = OK s2Task"
    by (simp add: eval_submit enqueue_def Push_def up_single s2Request_def s2Task_def
        s1Task_def laterReadings_def)
  then obtain fc' where run: "handleSubmitTask (Decoded s2Request) laterReadings
      (enqueue s1Task freshNode) = (OK s2Task, fc')"
    by (cases "handleSubmitTask (Decoded s2Request) laterReadings (enqueue s1Task freshNode)")
      simp
  then show ?thesis
    using handleSubmitTask_OK(2) [OF run] by simp
qed

lemma two_task_objs:
  "objs (enqueue s2Task (enqueue s1Task freshNode)) = [s1Task, s2Task]"
  by (simp add: enqueue_def freshNode_def NewFogCompute_def Let_def)

lemma two_task_heap_set:
  "set (taskHeap (enqueue s2Task (enqueue s1Task freshNode))) = {0, 1}"
proof -
  have "mset (taskHeap (enqueue s2Task (enqueue s1Task freshNode)))
      = mset (up [s1Task, s2Task] [0, 1] 1)"
    by (simp add: enqueue_def freshNode_def NewFogCompute_def Let_def Push_def up_single)
  also have "\<dots> = mset [0, 1]"
    by (rule mset_up) simp
  finally have "set_mset (mset (taskHeap (enqueue s2Task (enqueue s1Task freshNode))))
      = set_mset (mset [0, 1::nat])"
    by simp
  then show ?thesis by auto
qed

lemma two_task_state:
  "run freshNode twoSubmissions = enqueue s2Task (enqueue s1Task freshNode)"
proof -
  have "exec freshNode (Submit (Decoded s1Request) exampleReadings) = enqueue s1Task freshNode"
    by (simp add: submit_s1_state)
  moreover have "exec (enqueue s1Task freshNode) (Submit (Decoded s2Request) laterReadings)
      = enqueue s2Task (enqueue s1Task freshNode)"
    by (simp add: submit_s2_after_s1)
  ultimately show ?thesis
    by (simp add: run_def twoSubmissions_def)
qed

lemma run_fresh_wellformed: "wellformed (run freshNode evs)"
  using run_invariant [of "NewFogCompute ''fog-node-1'' ''edge-site-1''" evs]
    wf_NewFogCompute conserved_NewFogCompute by (simp add: freshNode_def)

theorem pop_returns_minimum_witness:
  "0 < length (workers (run freshNode twoSubmissions))
   \<and> workers (run freshNode twoSubmissions) ! 0 = Idle
   \<and> set (taskHeap (run freshNode twoSubmissions)) = {0, 1}
   \<and> SmartScore (objs (run freshNode twoSubmissions) ! 0) = 52.1255
   \<and> SmartScore (objs (run freshNode twoSubmissions) ! 1) = 51.1255
   \<and> workers (workerPop 0 (run freshNode twoSubmissions)) ! 0 = Popped 1
   \<and> set (taskHeap (workerPop 0 (run freshNode twoSubmissions))) = {0}"
proof -
  define fc where "fc = run freshNode twoSubmissions"
  have st: "fc = enqueue s2Task (enqueue s1Task freshNode)"
    unfolding fc_def by (rule two_task_state)
  have heap: "set (taskHeap fc) = {0, 1}"
    unfolding st by (rule two_task_heap_set)
  have ws: "workers fc = replicate 5 Idle"
    unfolding st by (simp add: enqueue_workers freshNode_def NewFogCompute_def)
  have ob: "objs fc = [s1Task, s2Task]"
    unfolding st by (rule two_task_objs)
  have sc: "SmartScore (objs fc ! 0) = 52.1255" "SmartScore (objs fc ! 1) = 51.1255"
    unfolding ob by (simp_all add: s1Task_def s2Task_def)
  have h1: "fc = run (NewFogCompute ''fog-node-1'' ''edge-site-1'') twoSubmissions"
    unfolding fc_def by (simp add: freshNode_def)
  have h2: "0 < length (workers fc)" using ws by simp
  have h3: "workers fc ! 0 = Idle" using ws by simp
  have mem: "b \<in> set (taskHeap fc) \<longleftrightarrow> b = 0 \<or> b = 1" for b
    unfolding heap by simp
  have h4: "taskHeap fc \<noteq> []"
  proof
    assume "taskHeap fc = []"
    then have "0 \<notin> set (taskHeap fc)" by simp
    then show False using mem [of 0] by simp
  qed
  define h' where "h' = taskHeap (workerPop 0 fc)"
  obtain a where a: "workers (workerPop 0 fc) ! 0 = Popped a" "a \<in> set (taskHeap fc)"
    "\<forall>b \<in> set (taskHeap fc). SmartScore (objs fc ! a) \<le> SmartScore (objs fc ! b)"
    "mset h' = mset (taskHeap fc) - {#a#}"
    using pop_returns_minimum [OF h1 h2 h3 h4] unfolding h'_def by blast
  have "SmartScore (objs fc ! a) \<le> SmartScore (objs fc ! 1)"
    using a(3) mem [of 1] by simp
  then have "a \<noteq> 0"
  proof (rule contrapos_pn)
    assume "a = 0"
    then show "\<not> SmartScore (objs fc ! a) \<le> SmartScore (objs fc ! 1)"
      using sc by simp
  qed
  then have a1: "a = 1" using a(2) mem [of a] by simp
  have dist: "distinct (taskHeap fc)"
    unfolding fc_def by (rule wf_distinct [OF run_fresh_wellformed])
  have "a \<in># mset (taskHeap fc)" using a(2) by simp
  then have ms: "mset (taskHeap fc) = mset (a # h')"
    using a(4) by simp
  have "set (taskHeap fc) = insert a (set h')"
    using mset_eq_setD [OF ms] by simp
  moreover have "distinct (a # h')"
    using mset_eq_imp_distinct_iff [OF ms] dist by simp
  ultimately have "b \<in> set h' \<longleftrightarrow> b = 0" for b
    using mem [of b] a1 by auto
  then have "set h' = {0}"
    by auto
  then show ?thesis
    using a(1) a1 h2 h3 heap sc unfolding h'_def fc_def by simp
qed

section \<open>What an admission changes\<close>

lemma applyDefaults_fixed:
  "Criticality (applyDefaults t) = Criticality t"
  "Priority (applyDefaults t) = Priority t"
  "Type (applyDefaults t) = Type t"
  by (simp_all add: applyDefaults_def Let_def)

lemma prepared_fields:
  "CPUCost (prepared t0 rd) = CPUCost (applyDefaults t0)"
  "RAMCost (prepared t0 rd) = RAMCost (applyDefaults t0)"
  "StorageCost (prepared t0 rd) = StorageCost (applyDefaults t0)"
  "EnergyCost (prepared t0 rd) = EnergyCost (applyDefaults t0)"
  "Criticality (prepared t0 rd) = Criticality t0"
  "ID (prepared t0 rd) = taskID (nowID rd)"
  by (simp_all add: prepared_def applyDefaults_fixed)

lemma submitFrom_cases:
  "submitFrom sn t0 rd fc =
     (if currentLoad sn > 0.8 \<or> queueSize sn > 50 then
        (ServiceUnavailable (Overloaded (currentLoad sn) (queueSize sn)),
         rejectTask ((prepared t0 rd)\<lparr>Status := ''rejected''\<rparr>)
           (Overloaded (currentLoad sn) (queueSize sn))
           (currentLoad sn) (queueSize sn) (nowRejected rd) fc)
      else if CPUCost (applyDefaults t0) > snapCPU sn \<or> RAMCost (applyDefaults t0) > snapRAM sn
              \<or> StorageCost (applyDefaults t0) > snapStorage sn then
        (ServiceUnavailable
           (Insufficient (CPUCost (applyDefaults t0)) (snapCPU sn) (RAMCost (applyDefaults t0))
              (snapRAM sn) (StorageCost (applyDefaults t0)) (snapStorage sn)),
         rejectTask ((prepared t0 rd)\<lparr>Status := ''rejected''\<rparr>)
           (Insufficient (CPUCost (applyDefaults t0)) (snapCPU sn) (RAMCost (applyDefaults t0))
              (snapRAM sn) (StorageCost (applyDefaults t0)) (snapStorage sn))
           (currentLoad sn) (queueSize sn) (nowRejected rd) fc)
      else if 4 \<le> sint (Criticality t0) \<and> snapEnergy sn < 0.3 then
        (ServiceUnavailable (LowEnergy (snapEnergy sn)),
         rejectTask ((prepared t0 rd)\<lparr>Status := ''rejected''\<rparr>) (LowEnergy (snapEnergy sn))
           (currentLoad sn) (queueSize sn) (nowRejected rd) fc)
      else
        (OK ((prepared t0 rd)\<lparr>Status := ''queued''\<rparr>),
         enqueue ((prepared t0 rd)\<lparr>Status := ''queued''\<rparr>) fc))"
  by (simp add: submitFrom_def prepared_def Let_def MaxLoadThreshold_def applyDefaults_fixed
      word_sle_eq)

lemma mset_Push: "mset (Push m h x) = mset h + {#x#}"
  by (simp add: Push_def mset_up)

lemma enqueue_effect:
  "objs (enqueue t fc) = objs fc @ [t]
   \<and> tasks (enqueue t fc) = (tasks fc)(ID t \<mapsto> length (objs fc))
   \<and> mset (taskHeap (enqueue t fc)) = mset (taskHeap fc) + {#length (objs fc)#}
   \<and> rejectedTasks (enqueue t fc) = rejectedTasks fc
   \<and> nodeLoad (enqueue t fc) = nodeLoad fc
   \<and> TasksRejected (enqueue t fc) = TasksRejected fc
   \<and> workers (enqueue t fc) = workers fc"
  by (simp add: enqueue_def Let_def mset_Push)

lemmas eval_defaults =
  zeroTask_def applyDefaults_def defaultCPU_def defaultRAM_def defaultStorage_def Let_def

lemma hungry_costs:
  "CPUCost (applyDefaults hungryRequest) = 0.05" "RAMCost (applyDefaults hungryRequest) = 0.05"
  "StorageCost (applyDefaults hungryRequest) = 10" "EnergyCost (applyDefaults hungryRequest) = 0.95"
  "sint (Criticality hungryRequest) = 0"
  by (simp_all add: hungryRequest_def eval_defaults)

lemma critical_costs:
  "CPUCost (applyDefaults criticalRequest) = 0.1" "RAMCost (applyDefaults criticalRequest) = 0.1"
  "StorageCost (applyDefaults criticalRequest) = 25"
  "EnergyCost (applyDefaults criticalRequest) = 0.05"
  "sint (Criticality criticalRequest) = 5"
  by (simp_all add: criticalRequest_def eval_defaults)

lemma fresh_fields:
  "nodeLoad freshNode = 0" "taskHeap freshNode = []" "availableCPU freshNode = 1"
  "availableRAM freshNode = 1" "availableStorage freshNode = 1000" "energyLevel freshNode = 1"
  "rejectedTasks freshNode = []" "objs freshNode = []" "tasks freshNode = Map.empty"
  "workers freshNode = replicate 5 Idle" "TasksRejected freshNode = 0"
  by (simp_all add: freshNode_def NewFogCompute_def)

lemma low_fields:
  "takeSnapshot lowEnergyNode = lowEnergySnapshot"
  "objs lowEnergyNode = []" "tasks lowEnergyNode = Map.empty" "taskHeap lowEnergyNode = []"
  "availableCPU lowEnergyNode = 1" "availableRAM lowEnergyNode = 1"
  "availableStorage lowEnergyNode = 1000" "energyLevel lowEnergyNode = 0.1"
  "rejectedTasks lowEnergyNode = []" "TasksRejected lowEnergyNode = 0"
  by (simp_all add: lowEnergyNode_def lowEnergySnapshot_def takeSnapshot_def fresh_fields)

lemma routine_costs:
  "CPUCost (applyDefaults routineRequest) = 0.1" "RAMCost (applyDefaults routineRequest) = 0.1"
  "StorageCost (applyDefaults routineRequest) = 25"
  "EnergyCost (applyDefaults routineRequest) = 0.05"
  "sint (Criticality routineRequest) = 3"
  by (simp_all add: routineRequest_def eval_defaults)

lemma taskID_5: "taskID 5 = ''task-5''"
  by (simp add: taskID_def digits.simps digit_def)

section \<open>The happy path and the overload gate (C2, C6)\<close>

lemmas eval_gates =
  handleSubmitTask_def submitFrom_def takeSnapshot_def
  zeroTask_def applyDefaults_def defaultCPU_def defaultRAM_def
  defaultStorage_def Let_def MaxLoadThreshold_def calculateScore_def Seconds_eq word_sle_eq

text \<open>
  C2 (as amended). On a node that is not overloaded and has 0.1 of CPU and of RAM and
  25 MB of storage available, a submission with type \<open>preprocessing\<close>, priority 1 and
  every other field omitted is admitted: its locked block allocates one task record, stores
  it under the id of the submission, pushes it onto the priority queue and takes 0.1 of
  CPU, 0.1 of RAM, 25 MB of storage and 0.05 of energy off the ledger. The record has
  cpu_cost 0.1, ram_cost 0.1, storage_cost 25, energy_cost 0.05 and, when the lock is
  released, status \<open>queued\<close>. The omitted criticality is 0, so the score is
  \<open>1 + 50 + 0 + 0.0005 + 1 + 0.025 + 0.1 = 52.1255\<close>. The answer is 200 and carries
  the id, the four costs and the score of the record; its status is that of the record at
  the moment the answer is encoded, about which nothing is stated.
\<close>

theorem s1_admitted_with_defaults:
  assumes "nodeLoad fc \<le> 0.8" and "length (taskHeap fc) \<le> 50"
    and "0.1 \<le> availableCPU fc" and "0.1 \<le> availableRAM fc" and "25 \<le> availableStorage fc"
  shows "\<exists>a t fc'. handleSubmitTask (Decoded s1Request) rd fc = (OK a, fc')
           \<and> objs fc' = objs fc @ [t]
           \<and> tasks fc' = (tasks fc)(taskID (nowID rd) \<mapsto> length (objs fc))
           \<and> mset (taskHeap fc') = mset (taskHeap fc) + {#length (objs fc)#}
           \<and> ID t = taskID (nowID rd)
           \<and> CPUCost t = 0.1 \<and> RAMCost t = 0.1 \<and> StorageCost t = 25 \<and> EnergyCost t = 0.05
           \<and> Status t = ''queued'' \<and> Criticality t = 0 \<and> SmartScore t = 52.1255
           \<and> availableCPU fc' = availableCPU fc - 0.1
           \<and> availableRAM fc' = availableRAM fc - 0.1
           \<and> availableStorage fc' = availableStorage fc - 25
           \<and> energyLevel fc' = energyLevel fc - 0.05
           \<and> rejectedTasks fc' = rejectedTasks fc \<and> TasksRejected fc' = TasksRejected fc
           \<and> nodeLoad fc' = nodeLoad fc \<and> workers fc' = workers fc
           \<and> ID a = taskID (nowID rd)
           \<and> CPUCost a = 0.1 \<and> RAMCost a = 0.1 \<and> StorageCost a = 25 \<and> EnergyCost a = 0.05
           \<and> SmartScore a = 52.1255"
proof -
  let ?q = "(prepared s1Request rd)\<lparr>Status := ''queued''\<rparr>"
  have d: "CPUCost (applyDefaults s1Request) = 0.1" "RAMCost (applyDefaults s1Request) = 0.1"
    "StorageCost (applyDefaults s1Request) = 25" "EnergyCost (applyDefaults s1Request) = 0.05"
    "sint (Criticality s1Request) = 0" "Criticality s1Request = 0"
    by (simp_all add: s1Request_def eval_defaults)
  have sc: "SmartScore ?q = 52.1255"
    by (simp add: prepared_def s1Request_def eval_defaults calculateScore_def Seconds_eq)
  have adm: "handleSubmitTask (Decoded s1Request) rd fc = (OK ?q, enqueue ?q fc)"
    using assms by (simp add: handleSubmitTask_def submitFrom_cases takeSnapshot_def d)
  have eff: "ID ?q = taskID (nowID rd)"
    "objs (enqueue ?q fc) = objs fc @ [?q]"
    "tasks (enqueue ?q fc) = (tasks fc)(taskID (nowID rd) \<mapsto> length (objs fc))"
    "mset (taskHeap (enqueue ?q fc)) = mset (taskHeap fc) + {#length (objs fc)#}"
    "availableCPU (enqueue ?q fc) = availableCPU fc - 0.1"
    "availableRAM (enqueue ?q fc) = availableRAM fc - 0.1"
    "availableStorage (enqueue ?q fc) = availableStorage fc - 25"
    "energyLevel (enqueue ?q fc) = energyLevel fc - 0.05"
    "rejectedTasks (enqueue ?q fc) = rejectedTasks fc"
    "TasksRejected (enqueue ?q fc) = TasksRejected fc"
    "nodeLoad (enqueue ?q fc) = nodeLoad fc" "workers (enqueue ?q fc) = workers fc"
    using enqueue_effect [of ?q fc] enqueue_ledger [of ?q fc]
    by (simp_all add: prepared_fields d)
  have f: "CPUCost ?q = 0.1" "RAMCost ?q = 0.1" "StorageCost ?q = 25" "EnergyCost ?q = 0.05"
    "Status ?q = ''queued''" "Criticality ?q = 0"
    by (simp_all add: prepared_fields d)
  show ?thesis
    unfolding adm using eff f sc by simp
qed

theorem s1_admitted_with_defaults_witness:
  "nodeLoad freshNode \<le> 0.8 \<and> length (taskHeap freshNode) \<le> 50
   \<and> 0.1 \<le> availableCPU freshNode \<and> 0.1 \<le> availableRAM freshNode
   \<and> 25 \<le> availableStorage freshNode
   \<and> objs (snd (handleSubmitTask (Decoded s1Request) exampleReadings freshNode)) = [s1Task]
   \<and> Status s1Task = ''queued'' \<and> SmartScore s1Task = 52.1255
   \<and> tasks (snd (handleSubmitTask (Decoded s1Request) exampleReadings freshNode)) ''task-5''
       = Some 0
   \<and> mset (taskHeap (snd (handleSubmitTask (Decoded s1Request) exampleReadings freshNode)))
       = {#0#}
   \<and> availableCPU (snd (handleSubmitTask (Decoded s1Request) exampleReadings freshNode)) = 0.9
   \<and> availableRAM (snd (handleSubmitTask (Decoded s1Request) exampleReadings freshNode)) = 0.9
   \<and> availableStorage (snd (handleSubmitTask (Decoded s1Request) exampleReadings freshNode)) = 975
   \<and> energyLevel (snd (handleSubmitTask (Decoded s1Request) exampleReadings freshNode)) = 0.95"
proof -
  have h: "nodeLoad freshNode \<le> 0.8" "length (taskHeap freshNode) \<le> 50"
    "0.1 \<le> availableCPU freshNode" "0.1 \<le> availableRAM freshNode"
    "25 \<le> availableStorage freshNode"
    by (simp_all add: fresh_fields)
  obtain a t fc' where o:
    "handleSubmitTask (Decoded s1Request) exampleReadings freshNode = (OK a, fc')"
    "objs fc' = objs freshNode @ [t]"
    "tasks fc' = (tasks freshNode)(taskID (nowID exampleReadings) \<mapsto> length (objs freshNode))"
    "mset (taskHeap fc') = mset (taskHeap freshNode) + {#length (objs freshNode)#}"
    "availableCPU fc' = availableCPU freshNode - 0.1"
    "availableRAM fc' = availableRAM freshNode - 0.1"
    "availableStorage fc' = availableStorage freshNode - 25"
    "energyLevel fc' = energyLevel freshNode - 0.05"
    using s1_admitted_with_defaults [OF h, of exampleReadings] by blast
  have st: "fc' = enqueue s1Task freshNode"
    using o(1) submit_s1_state by simp
  have "objs fc' = [s1Task]"
    unfolding st by (simp add: enqueue_effect fresh_fields)
  moreover have "tasks fc' ''task-5'' = Some 0" "mset (taskHeap fc') = {#0#}"
    "availableCPU fc' = 0.9" "availableRAM fc' = 0.9" "availableStorage fc' = 975"
    "energyLevel fc' = 0.95"
    using o(3-8) by (simp_all add: fresh_fields exampleReadings_def taskID_5)
  ultimately show ?thesis
    using h o(1) by (simp add: s1Task_def)
qed

text \<open>C2 as stated fails: the fresh node answers the submission with the score 52.1255,
  not 42.1255.\<close>

theorem s1_score_counterexample:
  "fst (handleSubmitTask (Decoded s1Request) exampleReadings freshNode) = OK s1Task
   \<and> Criticality s1Task = 0
   \<and> SmartScore s1Task = 52.1255
   \<and> SmartScore s1Task \<noteq> 42.1255"
  using submit_s1_fresh by (simp add: s1Task_def)

lemma submitFrom_overloaded:
  assumes "currentLoad sn > 0.8 \<or> queueSize sn > 50"
  shows "submitFrom sn t0 rd fc =
           (ServiceUnavailable (Overloaded (currentLoad sn) (queueSize sn)),
            rejectTask ((prepared t0 rd)\<lparr>Status := ''rejected''\<rparr>)
              (Overloaded (currentLoad sn) (queueSize sn))
              (currentLoad sn) (queueSize sn) (nowRejected rd) fc)"
  using assms by (auto simp: submitFrom_def prepared_def Let_def MaxLoadThreshold_def)

text \<open>
  C6. Whatever the task, a submission whose snapshot shows a load above 0.80 or a queue
  longer than 50 is answered 503 with the overload reason, which carries the load and the
  queue size of the snapshot; neither the costs of the task nor the availabilities of the
  snapshot are looked at. The rejection is recorded with the same reason, load and queue
  size, and nothing else of the node changes. In particular a submission made when the
  queue holds 51 tasks gets the overload reason.
\<close>

theorem overload_gate_first:
  assumes "currentLoad sn > 0.8 \<or> queueSize sn > 50"
  shows "fst (submitFrom sn t0 rd fc)
           = ServiceUnavailable (Overloaded (currentLoad sn) (queueSize sn))
         \<and> snd (submitFrom sn t0 rd fc)
           = fc\<lparr> rejectedTasks := rejectedTasks fc @
                    [\<lparr> rejTask = (prepared t0 rd)\<lparr>Status := ''rejected''\<rparr>,
                       RejectedAt = nowRejected rd,
                       RejectionReason = Overloaded (currentLoad sn) (queueSize sn),
                       NodeLoad = currentLoad sn, QueueSize = queueSize sn \<rparr>],
                  TasksRejected := TasksRejected fc + 1 \<rparr>
         \<and> (length (taskHeap fc) = 51 \<longrightarrow>
               fst (handleSubmitTask (Decoded t0) rd fc)
                 = ServiceUnavailable (Overloaded (nodeLoad fc) 51))"
proof -
  note eq = submitFrom_overloaded [OF assms, of t0 rd fc]
  have a: "fst (submitFrom sn t0 rd fc)
      = ServiceUnavailable (Overloaded (currentLoad sn) (queueSize sn))"
    unfolding eq by simp
  have c: "snd (submitFrom sn t0 rd fc)
           = fc\<lparr> rejectedTasks := rejectedTasks fc @
                    [\<lparr> rejTask = (prepared t0 rd)\<lparr>Status := ''rejected''\<rparr>,
                       RejectedAt = nowRejected rd,
                       RejectionReason = Overloaded (currentLoad sn) (queueSize sn),
                       NodeLoad = currentLoad sn, QueueSize = queueSize sn \<rparr>],
                  TasksRejected := TasksRejected fc + 1 \<rparr>"
    unfolding eq by (simp add: rejectTask_def)
  have d: "fst (handleSubmitTask (Decoded t0) rd fc)
      = ServiceUnavailable (Overloaded (nodeLoad fc) 51)" if "length (taskHeap fc) = 51"
  proof -
    have "currentLoad (takeSnapshot fc) > 0.8 \<or> queueSize (takeSnapshot fc) > 50"
      using that by (simp add: takeSnapshot_def)
    then show ?thesis
      using that
      by (simp add: handleSubmitTask_def submitFrom_overloaded) (simp add: takeSnapshot_def)
  qed
  show ?thesis using a c d by blast
qed

theorem overload_gate_first_witness:
  "(currentLoad fullQueueSnapshot > 0.8 \<or> queueSize fullQueueSnapshot > 50)
   \<and> fst (submitFrom fullQueueSnapshot s1Request exampleReadings freshNode)
       = ServiceUnavailable (Overloaded 0 51)
   \<and> fst (submitFrom fullQueueSnapshot greedyRequest exampleReadings freshNode)
       = ServiceUnavailable (Overloaded 0 51)
   \<and> TasksRejected (snd (submitFrom fullQueueSnapshot s1Request exampleReadings freshNode)) = 1
   \<and> tasks (snd (submitFrom fullQueueSnapshot s1Request exampleReadings freshNode)) = Map.empty
   \<and> availableCPU (snd (submitFrom fullQueueSnapshot s1Request exampleReadings freshNode)) = 1"
proof -
  have h: "currentLoad fullQueueSnapshot > 0.8 \<or> queueSize fullQueueSnapshot > 50"
    by (simp add: fullQueueSnapshot_def)
  note inst = overload_gate_first [OF h, of s1Request exampleReadings freshNode]
  have a: "fst (submitFrom fullQueueSnapshot s1Request exampleReadings freshNode)
       = ServiceUnavailable (Overloaded 0 51)"
    using inst by (simp add: fullQueueSnapshot_def)
  have b: "snd (submitFrom fullQueueSnapshot s1Request exampleReadings freshNode)
      = freshNode\<lparr> rejectedTasks := rejectedTasks freshNode @
                    [\<lparr> rejTask = (prepared s1Request exampleReadings)\<lparr>Status := ''rejected''\<rparr>,
                       RejectedAt = nowRejected exampleReadings,
                       RejectionReason = Overloaded (currentLoad fullQueueSnapshot)
                         (queueSize fullQueueSnapshot),
                       NodeLoad = currentLoad fullQueueSnapshot,
                       QueueSize = queueSize fullQueueSnapshot \<rparr>],
                  TasksRejected := TasksRejected freshNode + 1 \<rparr>"
    using inst by blast
  have g: "fst (submitFrom fullQueueSnapshot greedyRequest exampleReadings freshNode)
       = ServiceUnavailable (Overloaded 0 51)"
    using overload_gate_first [OF h, of greedyRequest exampleReadings freshNode]
    by (simp add: fullQueueSnapshot_def)
  show ?thesis
    unfolding b using h a g by (simp add: freshNode_def NewFogCompute_def)
qed

section \<open>The energy gate (C7)\<close>

text \<open>
  C7. A submission that passes the overload gate and the resource gate is rejected, with
  the low-energy reason, exactly when its criticality is at least 4 and the energy level
  of the snapshot is below 0.30. Rejected means: the answer is 503 with that reason, the
  rejection is recorded with the reason and the load and queue size of the snapshot, and
  nothing else of the node changes. Otherwise the submission is admitted: the answer is
  200, one task record with status \<open>queued\<close> is allocated, stored under the id of the
  submission and pushed onto the priority queue, and its four costs are taken off the
  ledger. So at energy level 0.1 a task of criticality 3 is admitted and the same task with
  criticality 5 is rejected.
\<close>

theorem energy_gate_criticality:
  assumes "\<not> (currentLoad sn > 0.8 \<or> queueSize sn > 50)"
    and "CPUCost (applyDefaults t0) \<le> snapCPU sn"
    and "RAMCost (applyDefaults t0) \<le> snapRAM sn"
    and "StorageCost (applyDefaults t0) \<le> snapStorage sn"
  shows "(if 4 \<le> sint (Criticality t0) \<and> snapEnergy sn < 0.3
          then submitFrom sn t0 rd fc
                 = (ServiceUnavailable (LowEnergy (snapEnergy sn)),
                    fc\<lparr> rejectedTasks := rejectedTasks fc @
                          [\<lparr> rejTask = (prepared t0 rd)\<lparr>Status := ''rejected''\<rparr>,
                             RejectedAt = nowRejected rd,
                             RejectionReason = LowEnergy (snapEnergy sn),
                             NodeLoad = currentLoad sn, QueueSize = queueSize sn \<rparr>],
                        TasksRejected := TasksRejected fc + 1 \<rparr>)
          else (\<exists>a fc'. submitFrom sn t0 rd fc = (OK a, fc')
                 \<and> ID a = taskID (nowID rd)
                 \<and> objs fc' = objs fc @ [(prepared t0 rd)\<lparr>Status := ''queued''\<rparr>]
                 \<and> tasks fc' = (tasks fc)(taskID (nowID rd) \<mapsto> length (objs fc))
                 \<and> mset (taskHeap fc') = mset (taskHeap fc) + {#length (objs fc)#}
                 \<and> availableCPU fc' = availableCPU fc - CPUCost (applyDefaults t0)
                 \<and> availableRAM fc' = availableRAM fc - RAMCost (applyDefaults t0)
                 \<and> availableStorage fc' = availableStorage fc - StorageCost (applyDefaults t0)
                 \<and> energyLevel fc' = energyLevel fc - EnergyCost (applyDefaults t0)
                 \<and> rejectedTasks fc' = rejectedTasks fc
                 \<and> TasksRejected fc' = TasksRejected fc
                 \<and> nodeLoad fc' = nodeLoad fc \<and> workers fc' = workers fc))
         \<and> ((\<exists>r. fst (submitFrom sn t0 rd fc) = ServiceUnavailable r)
              \<longleftrightarrow> 4 \<le> sint (Criticality t0) \<and> snapEnergy sn < 0.3)"
proof -
  let ?q = "(prepared t0 rd)\<lparr>Status := ''queued''\<rparr>"
  let ?low = "4 \<le> sint (Criticality t0) \<and> snapEnergy sn < 0.3"
  have rej: "submitFrom sn t0 rd fc
      = (ServiceUnavailable (LowEnergy (snapEnergy sn)),
         rejectTask ((prepared t0 rd)\<lparr>Status := ''rejected''\<rparr>) (LowEnergy (snapEnergy sn))
           (currentLoad sn) (queueSize sn) (nowRejected rd) fc)" if ?low
    using assms that by (simp add: submitFrom_cases)
  have adm: "submitFrom sn t0 rd fc = (OK ?q, enqueue ?q fc)" if "\<not> ?low"
    using assms that by (simp add: submitFrom_cases)
  have eff: "ID ?q = taskID (nowID rd)"
    "objs (enqueue ?q fc) = objs fc @ [?q]"
    "tasks (enqueue ?q fc) = (tasks fc)(taskID (nowID rd) \<mapsto> length (objs fc))"
    "mset (taskHeap (enqueue ?q fc)) = mset (taskHeap fc) + {#length (objs fc)#}"
    "availableCPU (enqueue ?q fc) = availableCPU fc - CPUCost (applyDefaults t0)"
    "availableRAM (enqueue ?q fc) = availableRAM fc - RAMCost (applyDefaults t0)"
    "availableStorage (enqueue ?q fc) = availableStorage fc - StorageCost (applyDefaults t0)"
    "energyLevel (enqueue ?q fc) = energyLevel fc - EnergyCost (applyDefaults t0)"
    "rejectedTasks (enqueue ?q fc) = rejectedTasks fc"
    "TasksRejected (enqueue ?q fc) = TasksRejected fc"
    "nodeLoad (enqueue ?q fc) = nodeLoad fc" "workers (enqueue ?q fc) = workers fc"
    using enqueue_effect [of ?q fc] enqueue_ledger [of ?q fc]
    by (simp_all add: prepared_fields)
  show ?thesis
  proof (cases ?low)
    case True
    then show ?thesis using rej [OF True] by (simp add: rejectTask_def)
  next
    case False
    then show ?thesis using adm [OF False] eff by simp
  qed
qed

theorem energy_gate_criticality_witness:
  "\<not> (currentLoad lowEnergySnapshot > 0.8 \<or> queueSize lowEnergySnapshot > 50)
   \<and> CPUCost (applyDefaults routineRequest) \<le> snapCPU lowEnergySnapshot
   \<and> CPUCost (applyDefaults criticalRequest) \<le> snapCPU lowEnergySnapshot
   \<and> snapEnergy lowEnergySnapshot = 0.1
   \<and> takeSnapshot lowEnergyNode = lowEnergySnapshot
   \<and> criticalRequest = routineRequest\<lparr>Criticality := 5\<rparr>
   \<and> (\<exists>a. fst (submitFrom lowEnergySnapshot routineRequest exampleReadings lowEnergyNode) = OK a)
   \<and> objs (snd (submitFrom lowEnergySnapshot routineRequest exampleReadings lowEnergyNode))
       = [(prepared routineRequest exampleReadings)\<lparr>Status := ''queued''\<rparr>]
   \<and> tasks (snd (submitFrom lowEnergySnapshot routineRequest exampleReadings lowEnergyNode))
        ''task-5'' = Some 0
   \<and> mset (taskHeap (snd (submitFrom lowEnergySnapshot routineRequest exampleReadings
        lowEnergyNode))) = {#0#}
   \<and> availableCPU (snd (submitFrom lowEnergySnapshot routineRequest exampleReadings
        lowEnergyNode)) = 0.9
   \<and> energyLevel (snd (submitFrom lowEnergySnapshot routineRequest exampleReadings
        lowEnergyNode)) = 0.05
   \<and> TasksRejected (snd (submitFrom lowEnergySnapshot routineRequest exampleReadings
        lowEnergyNode)) = 0
   \<and> submitFrom lowEnergySnapshot criticalRequest exampleReadings lowEnergyNode
       = (ServiceUnavailable (LowEnergy 0.1),
          lowEnergyNode\<lparr> rejectedTasks :=
              [\<lparr> rejTask = (prepared criticalRequest exampleReadings)\<lparr>Status := ''rejected''\<rparr>,
                 RejectedAt = 7, RejectionReason = LowEnergy 0.1, NodeLoad = 0, QueueSize = 0 \<rparr>],
            TasksRejected := 1 \<rparr>)"
proof -
  have g: "\<not> (currentLoad lowEnergySnapshot > 0.8 \<or> queueSize lowEnergySnapshot > 50)"
    by (simp add: lowEnergySnapshot_def)
  have r: "CPUCost (applyDefaults routineRequest) \<le> snapCPU lowEnergySnapshot"
    "RAMCost (applyDefaults routineRequest) \<le> snapRAM lowEnergySnapshot"
    "StorageCost (applyDefaults routineRequest) \<le> snapStorage lowEnergySnapshot"
    by (simp_all add: lowEnergySnapshot_def routine_costs)
  have c: "CPUCost (applyDefaults criticalRequest) \<le> snapCPU lowEnergySnapshot"
    "RAMCost (applyDefaults criticalRequest) \<le> snapRAM lowEnergySnapshot"
    "StorageCost (applyDefaults criticalRequest) \<le> snapStorage lowEnergySnapshot"
    by (simp_all add: lowEnergySnapshot_def critical_costs)
  have e: "snapEnergy lowEnergySnapshot = 0.1" "currentLoad lowEnergySnapshot = 0"
    "queueSize lowEnergySnapshot = 0"
    by (simp_all add: lowEnergySnapshot_def)
  have same: "criticalRequest = routineRequest\<lparr>Criticality := 5\<rparr>"
    by (simp add: routineRequest_def criticalRequest_def)
  obtain a fc' where adm:
    "submitFrom lowEnergySnapshot routineRequest exampleReadings lowEnergyNode = (OK a, fc')"
    "objs fc' = objs lowEnergyNode @ [(prepared routineRequest exampleReadings)\<lparr>Status := ''queued''\<rparr>]"
    "tasks fc' = (tasks lowEnergyNode)(taskID (nowID exampleReadings) \<mapsto> length (objs lowEnergyNode))"
    "mset (taskHeap fc') = mset (taskHeap lowEnergyNode) + {#length (objs lowEnergyNode)#}"
    "availableCPU fc' = availableCPU lowEnergyNode - CPUCost (applyDefaults routineRequest)"
    "energyLevel fc' = energyLevel lowEnergyNode - EnergyCost (applyDefaults routineRequest)"
    "TasksRejected fc' = TasksRejected lowEnergyNode"
    using energy_gate_criticality [OF g r, of exampleReadings lowEnergyNode] e
    by (auto simp: routine_costs)
  have rej: "submitFrom lowEnergySnapshot criticalRequest exampleReadings lowEnergyNode
       = (ServiceUnavailable (LowEnergy 0.1),
          lowEnergyNode\<lparr> rejectedTasks :=
              [\<lparr> rejTask = (prepared criticalRequest exampleReadings)\<lparr>Status := ''rejected''\<rparr>,
                 RejectedAt = 7, RejectionReason = LowEnergy 0.1, NodeLoad = 0, QueueSize = 0 \<rparr>],
            TasksRejected := 1 \<rparr>)"
    using energy_gate_criticality [OF g c, of exampleReadings lowEnergyNode] e
    by (simp add: critical_costs low_fields exampleReadings_def)
  have "tasks fc' ''task-5'' = Some 0" "mset (taskHeap fc') = {#0#}" "availableCPU fc' = 0.9"
    "energyLevel fc' = 0.05" "TasksRejected fc' = 0"
    "objs fc' = [(prepared routineRequest exampleReadings)\<lparr>Status := ''queued''\<rparr>]"
    using adm(2-7) by (simp_all add: low_fields routine_costs exampleReadings_def taskID_5)
  then show ?thesis
    using g r(1) c(1) e(1) same adm(1) rej low_fields(1) by simp
qed

section \<open>Retry of a rejected task (C5)\<close>

lemma findRejected_None:
  "(findRejected tid rs = None) = (\<forall>rt \<in> set rs. ID (rejTask rt) \<noteq> tid)"
  by (induction rs) auto

lemma findRejected_Some:
  "(findRejected tid rs = Some i) =
     (i < length rs \<and> ID (rejTask (rs ! i)) = tid \<and> (\<forall>j < i. ID (rejTask (rs ! j)) \<noteq> tid))"
proof (induction rs arbitrary: i)
  case Nil
  then show ?case by simp
next
  case (Cons rt rs)
  show ?case
  proof (cases "ID (rejTask rt) = tid")
    case True
    have "(\<forall>j < i. ID (rejTask ((rt # rs) ! j)) \<noteq> tid) \<longleftrightarrow> i = 0"
      using True by (cases i) auto
    then show ?thesis using True by auto
  next
    case False
    show ?thesis
    proof (cases i)
      case 0
      then show ?thesis using False by auto
    next
      case (Suc k)
      have "(\<forall>j < Suc k. ID (rejTask ((rt # rs) ! j)) \<noteq> tid)
          \<longleftrightarrow> (\<forall>j < k. ID (rejTask (rs ! j)) \<noteq> tid)"
        using False by (auto simp: less_Suc_eq_0_disj)
      then show ?thesis using False Suc Cons.IH [of k] by auto
    qed
  qed
qed

lemma calculateScore_bookkeeping:
  "calculateScore (t\<lparr>Status := s, SubmittedAt := n\<rparr>) = calculateScore t"
  by (simp add: calculateScore_def)

text \<open>
  C5. A retry reads the rejection queue, the three availabilities and nothing else of the
  node. If no entry has the id, it answers not-found and the node is unchanged. Otherwise
  it takes the first entry with the id. If one of its cpu, ram and storage costs exceeds
  what is available, the answer signals the blocked retry and the node is unchanged, the
  entry still in the queue. If not, whatever the load, the queue length, the criticality
  and the energy level are: the entry leaves the rejection queue, the task gets status
  \<open>queued\<close>, the four costs are deducted, and the task is allocated, stored under its id
  and pushed onto the priority queue.
\<close>

theorem retry_by_id:
  "((\<forall>rt \<in> set (rejectedTasks fc). ID (rejTask rt) \<noteq> tid) \<longrightarrow>
       handleRetryRejectedTask tid now fc = (RetryNotFound, fc))
   \<and> (\<forall>i r. i < length (rejectedTasks fc) \<and> r = rejTask (rejectedTasks fc ! i) \<and> ID r = tid
          \<and> (\<forall>j < i. ID (rejTask (rejectedTasks fc ! j)) \<noteq> tid) \<longrightarrow>
        (if CPUCost r > availableCPU fc \<or> RAMCost r > availableRAM fc
            \<or> StorageCost r > availableStorage fc
         then handleRetryRejectedTask tid now fc = (RetryStillBlocked, fc)
         else (\<exists>t fc'. handleRetryRejectedTask tid now fc = (Resubmitted t, fc')
                \<and> t = r\<lparr>Status := ''queued'', SubmittedAt := now, SmartScore := calculateScore r\<rparr>
                \<and> rejectedTasks fc' = take i (rejectedTasks fc) @ drop (Suc i) (rejectedTasks fc)
                \<and> availableCPU fc' = availableCPU fc - CPUCost r
                \<and> availableRAM fc' = availableRAM fc - RAMCost r
                \<and> availableStorage fc' = availableStorage fc - StorageCost r
                \<and> energyLevel fc' = energyLevel fc - EnergyCost r
                \<and> objs fc' = objs fc @ [t]
                \<and> tasks fc' = (tasks fc)(tid \<mapsto> length (objs fc))
                \<and> mset (taskHeap fc') = mset (taskHeap fc) + {#length (objs fc)#}
                \<and> nodeLoad fc' = nodeLoad fc \<and> TasksRejected fc' = TasksRejected fc
                \<and> workers fc' = workers fc)))"
proof (intro conjI allI impI)
  assume "\<forall>rt \<in> set (rejectedTasks fc). ID (rejTask rt) \<noteq> tid"
  then have "findRejected tid (rejectedTasks fc) = None"
    by (simp add: findRejected_None)
  then show "handleRetryRejectedTask tid now fc = (RetryNotFound, fc)"
    by (simp add: handleRetryRejectedTask_def)
next
  fix i r
  assume a: "i < length (rejectedTasks fc) \<and> r = rejTask (rejectedTasks fc ! i) \<and> ID r = tid
          \<and> (\<forall>j < i. ID (rejTask (rejectedTasks fc ! j)) \<noteq> tid)"
  then have r: "rejTask (rejectedTasks fc ! i) = r" and idr: "ID r = tid"
    by blast+
  have found: "findRejected tid (rejectedTasks fc) = Some i"
    using a by (auto simp: findRejected_Some)
  let ?blocked = "CPUCost r > availableCPU fc \<or> RAMCost r > availableRAM fc
            \<or> StorageCost r > availableStorage fc"
  let ?t = "r\<lparr>Status := ''queued'', SubmittedAt := now, SmartScore := calculateScore r\<rparr>"
  let ?fc1 = "fc\<lparr>rejectedTasks := take i (rejectedTasks fc) @ drop (i + 1) (rejectedTasks fc)\<rparr>"
  have blocked: "handleRetryRejectedTask tid now fc = (RetryStillBlocked, fc)" if ?blocked
    using that found r by (simp add: handleRetryRejectedTask_def Let_def)
  have free: "handleRetryRejectedTask tid now fc = (Resubmitted ?t, enqueue ?t ?fc1)"
    if "\<not> ?blocked"
    using that found r
    by (simp add: handleRetryRejectedTask_def Let_def calculateScore_bookkeeping)
  have idt: "ID ?t = tid" using idr by simp
  show "if ?blocked
         then handleRetryRejectedTask tid now fc = (RetryStillBlocked, fc)
         else (\<exists>t fc'. handleRetryRejectedTask tid now fc = (Resubmitted t, fc')
                \<and> t = r\<lparr>Status := ''queued'', SubmittedAt := now, SmartScore := calculateScore r\<rparr>
                \<and> rejectedTasks fc' = take i (rejectedTasks fc) @ drop (Suc i) (rejectedTasks fc)
                \<and> availableCPU fc' = availableCPU fc - CPUCost r
                \<and> availableRAM fc' = availableRAM fc - RAMCost r
                \<and> availableStorage fc' = availableStorage fc - StorageCost r
                \<and> energyLevel fc' = energyLevel fc - EnergyCost r
                \<and> objs fc' = objs fc @ [t]
                \<and> tasks fc' = (tasks fc)(tid \<mapsto> length (objs fc))
                \<and> mset (taskHeap fc') = mset (taskHeap fc) + {#length (objs fc)#}
                \<and> nodeLoad fc' = nodeLoad fc \<and> TasksRejected fc' = TasksRejected fc
                \<and> workers fc' = workers fc)"
  proof (cases ?blocked)
    case True
    then show ?thesis using blocked by simp
  next
    case False
    have "rejectedTasks (enqueue ?t ?fc1) = take i (rejectedTasks fc) @ drop (Suc i) (rejectedTasks fc)"
      "availableCPU (enqueue ?t ?fc1) = availableCPU fc - CPUCost r"
      "availableRAM (enqueue ?t ?fc1) = availableRAM fc - RAMCost r"
      "availableStorage (enqueue ?t ?fc1) = availableStorage fc - StorageCost r"
      "energyLevel (enqueue ?t ?fc1) = energyLevel fc - EnergyCost r"
      "objs (enqueue ?t ?fc1) = objs fc @ [?t]"
      "tasks (enqueue ?t ?fc1) = (tasks fc)(tid \<mapsto> length (objs fc))"
      "mset (taskHeap (enqueue ?t ?fc1)) = mset (taskHeap fc) + {#length (objs fc)#}"
      "nodeLoad (enqueue ?t ?fc1) = nodeLoad fc" "TasksRejected (enqueue ?t ?fc1) = TasksRejected fc"
      "workers (enqueue ?t ?fc1) = workers fc"
      using enqueue_effect [of ?t ?fc1] enqueue_ledger [of ?t ?fc1] idt by simp_all
    then show ?thesis using False free [OF False] by simp
  qed
qed


lemma hungry_admitted:
  "handleSubmitTask (Decoded hungryRequest) exampleReadings freshNode
     = (OK ((prepared hungryRequest exampleReadings)\<lparr>Status := ''queued''\<rparr>),
        enqueue ((prepared hungryRequest exampleReadings)\<lparr>Status := ''queued''\<rparr>) freshNode)"
  by (simp add: handleSubmitTask_def submitFrom_cases takeSnapshot_def fresh_fields hungry_costs)

lemma drainedNode_eq:
  "drainedNode =
     rejectTask ((prepared criticalRequest laterReadings)\<lparr>Status := ''rejected''\<rparr>)
       (LowEnergy 0.05) 0 1 10
       (enqueue ((prepared hungryRequest exampleReadings)\<lparr>Status := ''queued''\<rparr>) freshNode)"
proof -
  let ?s1 = "enqueue ((prepared hungryRequest exampleReadings)\<lparr>Status := ''queued''\<rparr>) freshNode"
  have led: "availableCPU ?s1 = 0.95" "availableRAM ?s1 = 0.95" "availableStorage ?s1 = 990"
    "energyLevel ?s1 = 0.05"
    using enqueue_ledger [of "(prepared hungryRequest exampleReadings)\<lparr>Status := ''queued''\<rparr>"
        freshNode]
    by (simp_all add: fresh_fields prepared_fields hungry_costs)
  have q: "taskHeap ?s1 = [0]" by (rule enqueue_fresh_heap)
  have l: "nodeLoad ?s1 = 0" by (simp add: enqueue_effect fresh_fields)
  have "snd (handleSubmitTask (Decoded criticalRequest) laterReadings ?s1)
      = rejectTask ((prepared criticalRequest laterReadings)\<lparr>Status := ''rejected''\<rparr>)
          (LowEnergy 0.05) 0 1 10 ?s1"
    by (simp add: handleSubmitTask_def submitFrom_cases takeSnapshot_def led q l critical_costs
        laterReadings_def)
  then show ?thesis
    by (simp add: drainedNode_def run_def hungry_admitted)
qed

lemma drained_fields:
  "rejectedTasks drainedNode =
     [\<lparr> rejTask = (prepared criticalRequest laterReadings)\<lparr>Status := ''rejected''\<rparr>,
        RejectedAt = 10, RejectionReason = LowEnergy 0.05, NodeLoad = 0, QueueSize = 1 \<rparr>]"
  "energyLevel drainedNode = 0.05" "availableCPU drainedNode = 0.95"
  "availableRAM drainedNode = 0.95" "availableStorage drainedNode = 990"
proof -
  let ?t = "(prepared hungryRequest exampleReadings)\<lparr>Status := ''queued''\<rparr>"
  note led = enqueue_ledger [of ?t freshNode] enqueue_effect [of ?t freshNode]
  show "rejectedTasks drainedNode =
     [\<lparr> rejTask = (prepared criticalRequest laterReadings)\<lparr>Status := ''rejected''\<rparr>,
        RejectedAt = 10, RejectionReason = LowEnergy 0.05, NodeLoad = 0, QueueSize = 1 \<rparr>]"
    using led by (simp add: drainedNode_eq rejectTask_def fresh_fields)
  show "energyLevel drainedNode = 0.05" "availableCPU drainedNode = 0.95"
    "availableRAM drainedNode = 0.95" "availableStorage drainedNode = 990"
    using led
    by (simp_all add: drainedNode_eq rejectTask_def fresh_fields prepared_fields hungry_costs)
qed

theorem retry_by_id_witness:
  "energyLevel drainedNode < 0.3
   \<and> length (rejectedTasks drainedNode) = 1
   \<and> 4 \<le> sint (Criticality (rejTask (rejectedTasks drainedNode ! 0)))
   \<and> ID (rejTask (rejectedTasks drainedNode ! 0)) = ''task-8''
   \<and> (\<exists>t. fst (handleRetryRejectedTask ''task-8'' 11 drainedNode) = Resubmitted t
          \<and> Status t = ''queued'')
   \<and> rejectedTasks (snd (handleRetryRejectedTask ''task-8'' 11 drainedNode)) = []
   \<and> energyLevel (snd (handleRetryRejectedTask ''task-8'' 11 drainedNode)) = 0
   \<and> handleRetryRejectedTask ''task-9'' 11 drainedNode = (RetryNotFound, drainedNode)"
proof -
  define r where "r = rejTask (rejectedTasks drainedNode ! 0)"
  have r_eq: "r = (prepared criticalRequest laterReadings)\<lparr>Status := ''rejected''\<rparr>"
    by (simp add: r_def drained_fields)
  have id8: "ID r = ''task-8''"
    by (simp add: r_eq prepared_fields laterReadings_def taskID_def digits.simps digit_def)
  have rc: "CPUCost r = 0.1" "RAMCost r = 0.1" "StorageCost r = 25" "EnergyCost r = 0.05"
    "sint (Criticality r) = 5"
    by (simp_all add: r_eq prepared_fields critical_costs)
  have len: "length (rejectedTasks drainedNode) = 1"
    by (simp add: drained_fields)
  note inst8 = retry_by_id [of drainedNode "''task-8''" 11]
  note inst9 = retry_by_id [of drainedNode "''task-9''" 11]
  have hyp: "0 < length (rejectedTasks drainedNode) \<and> r = rejTask (rejectedTasks drainedNode ! 0)
      \<and> ID r = ''task-8'' \<and> (\<forall>j < 0. ID (rejTask (rejectedTasks drainedNode ! j)) \<noteq> ''task-8'')"
    using len id8 by (simp add: r_def)
  have free: "\<not> (CPUCost r > availableCPU drainedNode \<or> RAMCost r > availableRAM drainedNode
      \<or> StorageCost r > availableStorage drainedNode)"
    by (simp add: rc drained_fields)
  have "if CPUCost r > availableCPU drainedNode \<or> RAMCost r > availableRAM drainedNode
            \<or> StorageCost r > availableStorage drainedNode
         then handleRetryRejectedTask ''task-8'' 11 drainedNode = (RetryStillBlocked, drainedNode)
         else (\<exists>t fc'. handleRetryRejectedTask ''task-8'' 11 drainedNode = (Resubmitted t, fc')
                \<and> t = r\<lparr>Status := ''queued'', SubmittedAt := 11, SmartScore := calculateScore r\<rparr>
                \<and> rejectedTasks fc'
                    = take 0 (rejectedTasks drainedNode) @ drop (Suc 0) (rejectedTasks drainedNode)
                \<and> availableCPU fc' = availableCPU drainedNode - CPUCost r
                \<and> availableRAM fc' = availableRAM drainedNode - RAMCost r
                \<and> availableStorage fc' = availableStorage drainedNode - StorageCost r
                \<and> energyLevel fc' = energyLevel drainedNode - EnergyCost r
                \<and> objs fc' = objs drainedNode @ [t]
                \<and> tasks fc' = (tasks drainedNode)(''task-8'' \<mapsto> length (objs drainedNode))
                \<and> mset (taskHeap fc') = mset (taskHeap drainedNode) + {#length (objs drainedNode)#}
                \<and> nodeLoad fc' = nodeLoad drainedNode
                \<and> TasksRejected fc' = TasksRejected drainedNode
                \<and> workers fc' = workers drainedNode)"
    using conjunct2 [OF inst8, rule_format, OF hyp] .
  then obtain t fc' where ok: "handleRetryRejectedTask ''task-8'' 11 drainedNode = (Resubmitted t, fc')"
    "t = r\<lparr>Status := ''queued'', SubmittedAt := 11, SmartScore := calculateScore r\<rparr>"
    "rejectedTasks fc' = take 0 (rejectedTasks drainedNode) @ drop (Suc 0) (rejectedTasks drainedNode)"
    "energyLevel fc' = energyLevel drainedNode - EnergyCost r"
    using free by auto
  have none: "\<forall>rt \<in> set (rejectedTasks drainedNode). ID (rejTask rt) \<noteq> ''task-9''"
    using id8 by (simp add: drained_fields r_eq)
  have nf: "handleRetryRejectedTask ''task-9'' 11 drainedNode = (RetryNotFound, drainedNode)"
    using inst9 none by blast
  have "rejectedTasks fc' = []" using ok(3) len by simp
  moreover have "energyLevel fc' = 0" using ok(4) rc by (simp add: drained_fields)
  moreover have "Status t = ''queued''" using ok(2) by simp
  ultimately show ?thesis
    using ok(1) nf len id8 rc(5) by (simp add: r_def [symmetric] drained_fields(2))
qed

section \<open>Rejected submissions and the task store (C10)\<close>

lemma submitFrom_rejected:
  assumes "fst (submitFrom sn t0 rd fc) = ServiceUnavailable rsn"
  shows "snd (submitFrom sn t0 rd fc)
           = rejectTask ((prepared t0 rd)\<lparr>Status := ''rejected''\<rparr>) rsn
               (currentLoad sn) (queueSize sn) (nowRejected rd) fc"
  using assms by (auto simp: submitFrom_cases split: if_splits)

lemma handleGetTask_cong:
  "tasks g = tasks fc \<Longrightarrow> objs g = objs fc \<Longrightarrow> handleGetTask i g = handleGetTask i fc"
  by (auto simp: handleGetTask_def split: option.splits)

lemma retry_then_get:
  assumes "handleRetryRejectedTask tid now g = (Resubmitted t, g')"
  shows "handleGetTask tid g' = OK t"
proof -
  obtain i where i: "findRejected tid (rejectedTasks g) = Some i"
    and t: "t = (rejTask (rejectedTasks g ! i))\<lparr>Status := ''queued'', SubmittedAt := now,
                   SmartScore := calculateScore ((rejTask (rejectedTasks g ! i))
                     \<lparr>Status := ''queued'', SubmittedAt := now\<rparr>)\<rparr>"
    and g': "g' = enqueue t (g\<lparr>rejectedTasks :=
                   take i (rejectedTasks g) @ drop (i + 1) (rejectedTasks g)\<rparr>)"
    using retry_Resubmitted [OF assms] by blast
  have "ID (rejTask (rejectedTasks g ! i)) = tid"
    using i by (simp add: findRejected_Some)
  then have "ID t = tid" using t by simp
  then show ?thesis
    unfolding g' handleGetTask_def
    using enqueue_stored [of t "g\<lparr>rejectedTasks :=
                   take i (rejectedTasks g) @ drop (i + 1) (rejectedTasks g)\<rparr>"]
    by simp
qed

text \<open>
  C10 (as amended). A submission that fails a gate changes neither the task store nor
  the allocated tasks nor the priority queue: every \<open>GET /tasks/{id}\<close> answers after it
  as it did before it, so the id of the rejected task is not found unless the store
  already held a task under that id. The rejected record is appended to the rejection
  queue; a successful retry of an id stores the task, and a \<open>GET\<close> of the id then returns it.
\<close>

theorem rejection_leaves_store:
  assumes "fst (submitFrom sn t0 rd fc) = ServiceUnavailable rsn"
  shows "tasks (snd (submitFrom sn t0 rd fc)) = tasks fc
         \<and> objs (snd (submitFrom sn t0 rd fc)) = objs fc
         \<and> taskHeap (snd (submitFrom sn t0 rd fc)) = taskHeap fc
         \<and> (\<forall>i. handleGetTask i (snd (submitFrom sn t0 rd fc)) = handleGetTask i fc)
         \<and> (tasks fc (taskID (nowID rd)) = None \<longrightarrow>
               handleGetTask (taskID (nowID rd)) (snd (submitFrom sn t0 rd fc)) = NotFound)
         \<and> rejectedTasks (snd (submitFrom sn t0 rd fc))
             = rejectedTasks fc @
                 [\<lparr> rejTask = (prepared t0 rd)\<lparr>Status := ''rejected''\<rparr>,
                    RejectedAt = nowRejected rd, RejectionReason = rsn,
                    NodeLoad = currentLoad sn, QueueSize = queueSize sn \<rparr>]
         \<and> ID (prepared t0 rd) = taskID (nowID rd)
         \<and> (\<forall>tid now g t g'. handleRetryRejectedTask tid now g = (Resubmitted t, g')
               \<longrightarrow> handleGetTask tid g' = OK t)"
proof -
  note eq = submitFrom_rejected [OF assms]
  have a: "tasks (snd (submitFrom sn t0 rd fc)) = tasks fc"
    "objs (snd (submitFrom sn t0 rd fc)) = objs fc"
    "taskHeap (snd (submitFrom sn t0 rd fc)) = taskHeap fc"
    unfolding eq by (simp_all add: rejectTask_def)
  have b: "handleGetTask i (snd (submitFrom sn t0 rd fc)) = handleGetTask i fc" for i
    by (rule handleGetTask_cong [OF a(1) a(2)])
  have c: "handleGetTask (taskID (nowID rd)) (snd (submitFrom sn t0 rd fc)) = NotFound"
    if "tasks fc (taskID (nowID rd)) = None"
    using that b by (simp add: handleGetTask_def)
  have d: "rejectedTasks (snd (submitFrom sn t0 rd fc))
             = rejectedTasks fc @
                 [\<lparr> rejTask = (prepared t0 rd)\<lparr>Status := ''rejected''\<rparr>,
                    RejectedAt = nowRejected rd, RejectionReason = rsn,
                    NodeLoad = currentLoad sn, QueueSize = queueSize sn \<rparr>]"
    unfolding eq by (simp add: rejectTask_def)
  have e: "ID (prepared t0 rd) = taskID (nowID rd)"
    by (simp add: prepared_fields)
  show ?thesis
    using a b c d e retry_then_get by blast
qed

lemma greedy_rejected:
  "fst (handleSubmitTask (Decoded greedyRequest) rd (enqueue s1Task freshNode))
     = ServiceUnavailable (Insufficient 2 0.9 0.05 0.9 10 975)"
proof -
  have led: "availableCPU (enqueue s1Task freshNode) = 0.9"
    "availableRAM (enqueue s1Task freshNode) = 0.9"
    "availableStorage (enqueue s1Task freshNode) = 975"
    using enqueue_ledger [of s1Task freshNode] by (simp_all add: fresh_fields s1Task_def)
  have q: "taskHeap (enqueue s1Task freshNode) = [0]" by (rule enqueue_fresh_heap)
  have l: "nodeLoad (enqueue s1Task freshNode) = 0" by (simp add: enqueue_effect fresh_fields)
  have costs: "CPUCost (applyDefaults greedyRequest) = 2"
    "RAMCost (applyDefaults greedyRequest) = 0.05"
    "StorageCost (applyDefaults greedyRequest) = 10"
    by (simp_all add: greedyRequest_def eval_defaults)
  show ?thesis
    by (simp add: handleSubmitTask_def submitFrom_cases takeSnapshot_def led q l costs)
qed

theorem rejection_leaves_store_witness:
  "fst (submitFrom (takeSnapshot (enqueue s1Task freshNode)) greedyRequest laterReadings
         (enqueue s1Task freshNode))
     = ServiceUnavailable (Insufficient 2 0.9 0.05 0.9 10 975)
   \<and> tasks (enqueue s1Task freshNode) (taskID (nowID laterReadings)) = None
   \<and> handleGetTask (taskID (nowID laterReadings))
        (snd (submitFrom (takeSnapshot (enqueue s1Task freshNode)) greedyRequest laterReadings
               (enqueue s1Task freshNode))) = NotFound"
proof -
  let ?fc = "enqueue s1Task freshNode"
  have rej: "fst (submitFrom (takeSnapshot ?fc) greedyRequest laterReadings ?fc)
     = ServiceUnavailable (Insufficient 2 0.9 0.05 0.9 10 975)"
    using greedy_rejected [of laterReadings] by (simp add: handleSubmitTask_def)
  have "tasks ?fc = Map.empty(''task-5'' \<mapsto> 0)"
    using enqueue_effect [of s1Task freshNode] by (simp add: fresh_fields s1Task_def)
  moreover have "taskID (nowID laterReadings) = ''task-8''"
    by (simp add: laterReadings_def taskID_def digits.simps digit_def)
  ultimately have fresh: "tasks ?fc (taskID (nowID laterReadings)) = None"
    by simp
  show ?thesis
    using rejection_leaves_store [OF rej] fresh rej by blast
qed

text \<open>
  C10 as stated fails in two ways. A node that has admitted a task at clock reading 5
  rejects a second submission made at the same reading: the rejected task has the id
  \<open>task-5\<close>, and a \<open>GET\<close> of that id finds the admitted task. And the task that the
  drained node rejected as \<open>task-8\<close> is found by a \<open>GET\<close> once it has been retried.
\<close>

theorem rejected_id_found_counterexample:
  "fst (handleSubmitTask (Decoded greedyRequest) exampleReadings (enqueue s1Task freshNode))
     = ServiceUnavailable (Insufficient 2 0.9 0.05 0.9 10 975)
   \<and> ID (rejTask (last (rejectedTasks
        (snd (handleSubmitTask (Decoded greedyRequest) exampleReadings
               (enqueue s1Task freshNode)))))) = ''task-5''
   \<and> handleGetTask ''task-5''
        (snd (handleSubmitTask (Decoded greedyRequest) exampleReadings (enqueue s1Task freshNode)))
       = OK s1Task
   \<and> ID (rejTask (last (rejectedTasks drainedNode))) = ''task-8''
   \<and> handleGetTask ''task-8'' drainedNode = NotFound
   \<and> handleGetTask ''task-8'' (snd (handleRetryRejectedTask ''task-8'' 11 drainedNode))
       = OK ((prepared criticalRequest laterReadings)
              \<lparr>Status := ''queued'', SubmittedAt := 11,
               SmartScore := calculateScore (prepared criticalRequest laterReadings)\<rparr>)"
proof -
  let ?fc = "enqueue s1Task freshNode"
  let ?after = "snd (handleSubmitTask (Decoded greedyRequest) exampleReadings ?fc)"
  have rej: "fst (submitFrom (takeSnapshot ?fc) greedyRequest exampleReadings ?fc)
     = ServiceUnavailable (Insufficient 2 0.9 0.05 0.9 10 975)"
    using greedy_rejected [of exampleReadings] by (simp add: handleSubmitTask_def)
  have after: "?after = rejectTask ((prepared greedyRequest exampleReadings)\<lparr>Status := ''rejected''\<rparr>)
      (Insufficient 2 0.9 0.05 0.9 10 975) (currentLoad (takeSnapshot ?fc))
      (queueSize (takeSnapshot ?fc)) (nowRejected exampleReadings) ?fc"
    using submitFrom_rejected [OF rej] by (simp add: handleSubmitTask_def)
  have id5: "taskID (nowID exampleReadings) = ''task-5''"
    by (simp add: exampleReadings_def taskID_def digits.simps digit_def)
  have a: "ID (rejTask (last (rejectedTasks ?after))) = ''task-5''"
    unfolding after by (simp add: rejectTask_def prepared_fields id5)
  have "tasks ?after = tasks ?fc" "objs ?after = objs ?fc"
    unfolding after by (simp_all add: rejectTask_def)
  then have "handleGetTask ''task-5'' ?after = handleGetTask ''task-5'' ?fc"
    by (rule handleGetTask_cong)
  also have "\<dots> = OK s1Task"
    using enqueue_stored [of s1Task freshNode]
    by (simp add: handleGetTask_def fresh_fields) (simp add: s1Task_def)
  finally have b: "handleGetTask ''task-5'' ?after = OK s1Task" .
  have id8: "taskID (nowID laterReadings) = ''task-8''"
    by (simp add: laterReadings_def taskID_def digits.simps digit_def)
  have c: "ID (rejTask (last (rejectedTasks drainedNode))) = ''task-8''"
    by (simp add: drained_fields prepared_fields id8)
  have "tasks drainedNode = Map.empty(''task-5'' \<mapsto> 0)"
    using enqueue_effect [of "(prepared hungryRequest exampleReadings)\<lparr>Status := ''queued''\<rparr>" freshNode]
    by (simp add: drainedNode_eq rejectTask_def fresh_fields prepared_fields id5)
  then have d: "handleGetTask ''task-8'' drainedNode = NotFound"
    by (simp add: handleGetTask_def)
  let ?r = "(prepared criticalRequest laterReadings)\<lparr>Status := ''rejected''\<rparr>"
  have found: "findRejected ''task-8'' (rejectedTasks drainedNode) = Some 0"
    by (simp add: drained_fields prepared_fields id8)
  have "fst (handleRetryRejectedTask ''task-8'' 11 drainedNode)
      = Resubmitted ((prepared criticalRequest laterReadings)
              \<lparr>Status := ''queued'', SubmittedAt := 11,
               SmartScore := calculateScore (prepared criticalRequest laterReadings)\<rparr>)"
    by (simp add: handleRetryRejectedTask_def Let_def drained_fields prepared_fields id8
        critical_costs calculateScore_def)
  then have e: "handleGetTask ''task-8'' (snd (handleRetryRejectedTask ''task-8'' 11 drainedNode))
       = OK ((prepared criticalRequest laterReadings)
              \<lparr>Status := ''queued'', SubmittedAt := 11,
               SmartScore := calculateScore (prepared criticalRequest laterReadings)\<rparr>)"
    using retry_then_get [of "''task-8''" 11 drainedNode _
        "snd (handleRetryRejectedTask ''task-8'' 11 drainedNode)"]
    by (metis prod.collapse)
  show ?thesis
    using greedy_rejected a b c d e by blast
qed

section \<open>Task ids (C9)\<close>

lemma digit_inj: "a < 10 \<Longrightarrow> b < 10 \<Longrightarrow> digit a = digit b \<Longrightarrow> a = b"
proof -
  assume a: "a < 10" and b: "b < 10" and eq: "digit a = digit b"
  have "a \<in> {0, 1, 2, 3, 4, 5, 6, 7, 8, 9}" using a by auto
  moreover have "b \<in> {0, 1, 2, 3, 4, 5, 6, 7, 8, 9}" using b by auto
  ultimately show "a = b" using eq by (auto simp: digit_def)
qed

lemma digit_not_minus: "a < 10 \<Longrightarrow> digit a \<noteq> CHR ''-''"
proof -
  assume a: "a < 10"
  have "a \<in> {0, 1, 2, 3, 4, 5, 6, 7, 8, 9}" using a by auto
  then show ?thesis by (auto simp: digit_def)
qed

lemma digits_nonempty: "digits n \<noteq> []"
  by (subst digits.simps) simp

lemma digits_hd: "hd (digits n) \<noteq> CHR ''-''"
proof (induction n rule: digits.induct)
  case (1 n)
  show ?case
  proof (cases "n < 10")
    case True
    then show ?thesis by (subst digits.simps) (simp add: digit_not_minus)
  next
    case False
    then have "hd (digits n) = hd (digits (n div 10))"
      by (subst digits.simps) (simp add: digits_nonempty)
    then show ?thesis using "1.IH" False by simp
  qed
qed

lemma digits_inj: "digits n = digits m \<Longrightarrow> n = m"
proof (induction n arbitrary: m rule: digits.induct)
  case (1 n)
  show ?case
  proof (cases "n < 10")
    case n: True
    show ?thesis
    proof (cases "m < 10")
      case True
      then have "[digit n] = [digit m]"
        using "1.prems" n by (subst (asm) digits.simps, subst (asm) (2) digits.simps) simp
      then show ?thesis using digit_inj n True by simp
    next
      case False
      have "digits n = [digit n]" using n by (subst digits.simps) simp
      moreover have "digits m = digits (m div 10) @ [digit (m mod 10)]"
        using False by (subst digits.simps) simp
      ultimately have "digits (m div 10) = []" using "1.prems" by simp
      then show ?thesis using digits_nonempty by simp
    qed
  next
    case n: False
    have dn: "digits n = digits (n div 10) @ [digit (n mod 10)]"
      using n by (subst digits.simps) simp
    show ?thesis
    proof (cases "m < 10")
      case True
      have "digits m = [digit m]" using True by (subst digits.simps) simp
      then have "digits (n div 10) = []" using "1.prems" dn by simp
      then show ?thesis using digits_nonempty by simp
    next
      case False
      have dm: "digits m = digits (m div 10) @ [digit (m mod 10)]"
        using False by (subst digits.simps) simp
      have "digits (n div 10) = digits (m div 10)" "digit (n mod 10) = digit (m mod 10)"
        using "1.prems" dn dm by simp_all
      then have "n div 10 = m div 10" "n mod 10 = m mod 10"
        using "1.IH" [OF n] digit_inj [of "n mod 10" "m mod 10"] by simp_all
      then show ?thesis by (metis div_mult_mod_eq)
    qed
  qed
qed

lemma taskID_inj: "(taskID n = taskID m) = (n = m)"
proof
  assume eq: "taskID n = taskID m"
  show "n = m"
  proof (cases "n < 0")
    case n: True
    show ?thesis
    proof (cases "m < 0")
      case True
      then have "digits (nat (- n)) = digits (nat (- m))"
        using eq n by (simp add: taskID_def)
      then have "nat (- n) = nat (- m)" by (rule digits_inj)
      then show ?thesis using n True by simp
    next
      case False
      then have "CHR ''-'' # digits (nat (- n)) = digits (nat m)"
        using eq n by (simp add: taskID_def)
      then have "hd (digits (nat m)) = CHR ''-''" by (metis list.sel(1))
      then show ?thesis using digits_hd by simp
    qed
  next
    case n: False
    show ?thesis
    proof (cases "m < 0")
      case True
      then have "digits (nat n) = CHR ''-'' # digits (nat (- m))"
        using eq n by (simp add: taskID_def)
      then have "hd (digits (nat n)) = CHR ''-''" by simp
      then show ?thesis using digits_hd by simp
    next
      case False
      then have "digits (nat n) = digits (nat m)"
        using eq n by (simp add: taskID_def)
      then have "nat n = nat m" by (rule digits_inj)
      then show ?thesis using n False by simp
    qed
  qed
qed simp

text \<open>
  C9 (as amended). The id of an admitted task is \<open>task-\<close> followed by the decimal
  wall-clock reading (\<open>UnixNano\<close>) taken during its submission; no counter and no state
  of the node enters it. So two admitted tasks have different ids exactly when the clock
  readings of their submissions differ.
\<close>

theorem ids_follow_the_clock:
  assumes "handleSubmitTask (Decoded a) rd1 fc1 = (OK t1, fc1')"
    and "handleSubmitTask (Decoded b) rd2 fc2 = (OK t2, fc2')"
  shows "ID t1 = taskID (nowID rd1) \<and> ID t2 = taskID (nowID rd2)
         \<and> (ID t1 = ID t2 \<longleftrightarrow> nowID rd1 = nowID rd2)"
proof -
  have "ID t1 = taskID (nowID rd1)"
    by (subst handleSubmitTask_OK(1) [OF assms(1)]) simp
  moreover have "ID t2 = taskID (nowID rd2)"
    by (subst handleSubmitTask_OK(1) [OF assms(2)]) simp
  ultimately show ?thesis
    by (simp add: taskID_inj)
qed

theorem ids_follow_the_clock_witness:
  "handleSubmitTask (Decoded s1Request) exampleReadings freshNode
     = (OK s1Task, enqueue s1Task freshNode)
   \<and> handleSubmitTask (Decoded s2Request) laterReadings (enqueue s1Task freshNode)
     = (OK s2Task, enqueue s2Task (enqueue s1Task freshNode))
   \<and> nowID exampleReadings \<noteq> nowID laterReadings
   \<and> ID s1Task \<noteq> ID s2Task"
proof -
  have ne: "nowID exampleReadings \<noteq> nowID laterReadings"
    by (simp add: exampleReadings_def laterReadings_def)
  then have "ID s1Task \<noteq> ID s2Task"
    using ids_follow_the_clock [OF submit_s1_state submit_s2_after_s1] by blast
  then show ?thesis
    using submit_s1_state submit_s2_after_s1 ne by simp
qed

text \<open>
  C9 as stated fails: a node admits two different tasks whose submissions read the same
  clock value, and gives both the id \<open>task-5\<close>; the store then holds only the second.
\<close>

theorem id_collision_counterexample:
  "handleSubmitTask (Decoded s1Request) exampleReadings freshNode
     = (OK s1Task, enqueue s1Task freshNode)
   \<and> handleSubmitTask (Decoded s2Request) exampleReadings (enqueue s1Task freshNode)
     = (OK s2TaskSameClock, enqueue s2TaskSameClock (enqueue s1Task freshNode))
   \<and> s1Task \<noteq> s2TaskSameClock
   \<and> ID s1Task = ''task-5'' \<and> ID s2TaskSameClock = ''task-5''
   \<and> handleGetTask ''task-5'' (enqueue s2TaskSameClock (enqueue s1Task freshNode))
       = OK s2TaskSameClock"
proof -
  have "fst (handleSubmitTask (Decoded s2Request) exampleReadings (enqueue s1Task freshNode))
      = OK s2TaskSameClock"
    by (simp add: eval_submit enqueue_def Push_def up_single s2Request_def s2Task_def
        s1Task_def s2TaskSameClock_def)
  then obtain fc' where run: "handleSubmitTask (Decoded s2Request) exampleReadings
      (enqueue s1Task freshNode) = (OK s2TaskSameClock, fc')"
    by (cases "handleSubmitTask (Decoded s2Request) exampleReadings (enqueue s1Task freshNode)")
      simp
  then have second: "handleSubmitTask (Decoded s2Request) exampleReadings
      (enqueue s1Task freshNode) = (OK s2TaskSameClock, enqueue s2TaskSameClock (enqueue s1Task freshNode))"
    using handleSubmitTask_OK(2) [OF run] by simp
  have ne: "s1Task \<noteq> s2TaskSameClock"
  proof
    assume "s1Task = s2TaskSameClock"
    then have "SmartScore s1Task = SmartScore s2TaskSameClock" by simp
    then show False by (simp add: s1Task_def s2Task_def s2TaskSameClock_def)
  qed
  have ids: "ID s1Task = ''task-5''" "ID s2TaskSameClock = ''task-5''"
    by (simp_all add: s1Task_def s2TaskSameClock_def)
  have "handleGetTask ''task-5'' (enqueue s2TaskSameClock (enqueue s1Task freshNode))
       = OK s2TaskSameClock"
    using enqueue_stored [of s2TaskSameClock "enqueue s1Task freshNode"] ids(2)
    by (simp add: handleGetTask_def)
  then show ?thesis
    using submit_s1_state second ne ids by simp
qed

section \<open>Ranges of the ledger (C8)\<close>

lemma defaults_positive:
  "0 < defaultCPU ty" "0 < defaultRAM ty" "0 < defaultStorage ty"
  by (simp_all add: defaultCPU_def defaultRAM_def defaultStorage_def)

lemma nonneg_applyDefaults: "nonneg t \<Longrightarrow> nonneg (applyDefaults t)"
  using defaults_positive [of "Type t"]
  by (auto simp: nonneg_def applyDefaults_def Let_def intro: less_imp_le)

lemma nonneg_prepared: "nonneg t \<Longrightarrow> nonneg ((prepared t rd)\<lparr>Status := s\<rparr>)"
  using nonneg_applyDefaults [of t] by (simp add: nonneg_def prepared_def)

lemma solvent_rejectTask:
  "solvent fc \<Longrightarrow> nonneg t \<Longrightarrow> solvent (rejectTask t r l q n fc)"
  by (simp add: solvent_def rejectTask_def)

lemma solvent_enqueue:
  assumes "solvent fc" "nonneg t"
    and "CPUCost t \<le> availableCPU fc" "RAMCost t \<le> availableRAM fc"
    and "StorageCost t \<le> availableStorage fc"
  shows "solvent (enqueue t fc)"
  using assms by (simp add: solvent_def enqueue_def Let_def)

lemma solvent_handleSubmitTask:
  assumes "solvent fc" "nonneg t0"
  shows "solvent (snd (handleSubmitTask (Decoded t0) rd fc))"
proof -
  let ?q = "(prepared t0 rd)\<lparr>Status := ''queued''\<rparr>"
  have nq: "nonneg ?q" "nonneg ((prepared t0 rd)\<lparr>Status := ''rejected''\<rparr>)"
    using assms(2) by (simp_all add: nonneg_prepared)
  have enq: "solvent (enqueue ?q fc)"
    if "CPUCost (applyDefaults t0) \<le> availableCPU fc"
      "RAMCost (applyDefaults t0) \<le> availableRAM fc"
      "StorageCost (applyDefaults t0) \<le> availableStorage fc"
    using that by (intro solvent_enqueue assms(1) nq(1)) (simp_all add: prepared_fields)
  show ?thesis
    using assms(1) nq(2) enq
    by (simp add: handleSubmitTask_def submitFrom_cases takeSnapshot_def solvent_rejectTask
        not_less)
qed

lemma solvent_retry:
  assumes "solvent fc"
  shows "solvent (snd (handleRetryRejectedTask tid now fc))"
proof (cases "findRejected tid (rejectedTasks fc)")
  case None
  then show ?thesis using assms by (simp add: handleRetryRejectedTask_def)
next
  case (Some i)
  let ?r = "rejTask (rejectedTasks fc ! i)"
  let ?t = "?r\<lparr>Status := ''queued'', SubmittedAt := now,
      SmartScore := calculateScore (?r\<lparr>Status := ''queued'', SubmittedAt := now\<rparr>)\<rparr>"
  let ?fc1 = "fc\<lparr>rejectedTasks := take i (rejectedTasks fc) @ drop (i + 1) (rejectedTasks fc)\<rparr>"
  have i: "i < length (rejectedTasks fc)" using Some by (simp add: findRejected_Some)
  then have "rejectedTasks fc ! i \<in> set (rejectedTasks fc)" by simp
  then have nr: "nonneg ?r" using assms by (simp add: solvent_def)
  then have nt: "nonneg ?t" by (simp add: nonneg_def)
  have "set (take i (rejectedTasks fc) @ drop (i + 1) (rejectedTasks fc)) \<subseteq> set (rejectedTasks fc)"
    using set_take_subset set_drop_subset by fastforce
  then have s1: "solvent ?fc1" using assms by (auto simp: solvent_def)
  show ?thesis
  proof (cases "CPUCost ?r > availableCPU fc \<or> RAMCost ?r > availableRAM fc
                 \<or> StorageCost ?r > availableStorage fc")
    case True
    then show ?thesis using assms Some by (simp add: handleRetryRejectedTask_def Let_def)
  next
    case False
    then have "solvent (enqueue ?t ?fc1)"
      by (intro solvent_enqueue s1 nt) simp_all
    then show ?thesis using False Some by (simp add: handleRetryRejectedTask_def Let_def)
  qed
qed

lemma solvent_workerPop: "solvent fc \<Longrightarrow> solvent (workerPop w fc)"
  by (simp add: workerPop_def solvent_def split: option.splits)

lemma set_update_nonneg:
  assumes "\<forall>t \<in> set m. nonneg t" "nonneg x"
  shows "\<forall>t \<in> set (m[a := x]). nonneg t"
  using assms set_update_subset_insert [of m a x] by auto

lemma solvent_workerStart:
  assumes "solvent fc" "wellformed fc"
  shows "solvent (workerStart w fc)"
proof (cases "w < length (workers fc) \<and> (\<exists>a. workers fc ! w = Popped a)")
  case False
  then show ?thesis using assms by (simp add: workerStart_skip)
next
  case True
  then obtain a where a: "w < length (workers fc)" "workers fc ! w = Popped a" by blast
  then have "holds (workers fc ! w) a" by simp
  then have "a < length (objs fc)" using wf_holdsD [OF assms(2) a(1)] by blast
  then have "nonneg (objs fc ! a)" using assms(1) by (simp add: solvent_def)
  then have "nonneg ((objs fc ! a)\<lparr>Status := ''processing''\<rparr>)" by (simp add: nonneg_def)
  then have "\<forall>t \<in> set ((objs fc)[a := (objs fc ! a)\<lparr>Status := ''processing''\<rparr>]). nonneg t"
    using assms(1) by (intro set_update_nonneg) (simp_all add: solvent_def)
  then show ?thesis
    using assms(1) by (simp add: workerStart_Popped [OF a] solvent_def)
qed

lemma solvent_workerFinish:
  assumes "solvent fc" "wellformed fc"
  shows "solvent (workerFinish w now fc)"
proof (cases "w < length (workers fc) \<and> (\<exists>a. workers fc ! w = Processing a)")
  case False
  then show ?thesis using assms by (simp add: workerFinish_skip)
next
  case True
  then obtain a where a: "w < length (workers fc)" "workers fc ! w = Processing a" by blast
  then have "holds (workers fc ! w) a" by simp
  then have "a < length (objs fc)" using wf_holdsD [OF assms(2) a(1)] by blast
  then have n: "nonneg (objs fc ! a)" using assms(1) by (simp add: solvent_def)
  then have "nonneg ((objs fc ! a)\<lparr>Status := ''completed'', CompletedAt := Some now\<rparr>)"
    by (simp add: nonneg_def)
  then have "\<forall>t \<in> set ((objs fc)[a := (objs fc ! a)\<lparr>Status := ''completed'',
      CompletedAt := Some now\<rparr>]). nonneg t"
    using assms(1) by (intro set_update_nonneg) (simp_all add: solvent_def)
  then show ?thesis
    using assms(1) n by (simp add: workerFinish_Processing [OF a] solvent_def nonneg_def)
qed

lemma solvent_exec:
  assumes "solvent fc" "wellformed fc" "plainEvent e"
  shows "solvent (exec fc e)"
proof (cases e)
  case (Submit b rd)
  show ?thesis
  proof (cases b)
    case Malformed
    then show ?thesis using assms Submit by (simp add: handleSubmitTask_def)
  next
    case (Decoded t0)
    then show ?thesis using assms Submit by (simp add: solvent_handleSubmitTask)
  qed
next
  case (SubmitStale sn t rd)
  then show ?thesis using assms by simp
next
  case ClearRejected
  then show ?thesis using assms by (simp add: handleClearRejectedTasks_def solvent_def)
next
  case Tick
  then show ?thesis using assms by (simp add: updateMetrics_def solvent_def)
qed (use assms in \<open>simp_all add: solvent_retry solvent_workerPop solvent_workerStart
      solvent_workerFinish\<close>)

lemma solvent_NewFogCompute: "solvent (NewFogCompute n l)"
  by (simp add: solvent_def NewFogCompute_def)

lemma solvent_run:
  assumes "solvent fc" "wellformed fc" "conserved fc" "\<forall>e \<in> set evs. plainEvent e"
  shows "solvent (run fc evs)"
  using assms
proof (induction evs arbitrary: fc)
  case Nil
  then show ?case by (simp add: run_def)
next
  case (Cons e evs)
  have "solvent (exec fc e)"
    using Cons.prems by (intro solvent_exec) simp_all
  moreover have "wellformed (exec fc e)" "conserved (exec fc e)"
    using exec_invariant [of fc e] Cons.prems by simp_all
  ultimately have "solvent (run (exec fc e) evs)"
    using Cons.prems(4) by (intro Cons.IH) simp_all
  then show ?case by (simp add: run_def)
qed

lemma fresh_admits:
  assumes "CPUCost (applyDefaults t) \<le> 1" "RAMCost (applyDefaults t) \<le> 1"
    and "StorageCost (applyDefaults t) \<le> 1000" "sint (Criticality t) < 4"
  shows "handleSubmitTask (Decoded t) rd freshNode
     = (OK ((prepared t rd)\<lparr>Status := ''queued''\<rparr>),
        enqueue ((prepared t rd)\<lparr>Status := ''queued''\<rparr>) freshNode)"
  using assms
  by (simp add: handleSubmitTask_def submitFrom_cases takeSnapshot_def fresh_fields)

lemma fresh_snapshot_admits:
  assumes "CPUCost (applyDefaults t) \<le> 1" "RAMCost (applyDefaults t) \<le> 1"
    and "StorageCost (applyDefaults t) \<le> 1000" "sint (Criticality t) < 4"
  shows "submitFrom (takeSnapshot freshNode) t rd fc
     = (OK ((prepared t rd)\<lparr>Status := ''queued''\<rparr>),
        enqueue ((prepared t rd)\<lparr>Status := ''queued''\<rparr>) fc)"
  using assms
  by (simp add: submitFrom_cases takeSnapshot_def fresh_fields)

lemma racing_cpu: "availableCPU (run freshNode racingSubmissions) = - 0.2"
proof -
  have b: "CPUCost (applyDefaults bigRequest) = 0.6"
    "RAMCost (applyDefaults bigRequest) = 0.3"
    "StorageCost (applyDefaults bigRequest) = 100"
    "sint (Criticality bigRequest) = 0"
    by (simp_all add: bigRequest_def eval_defaults)
  have adm: "submitFrom (takeSnapshot freshNode) bigRequest rd fc
     = (OK ((prepared bigRequest rd)\<lparr>Status := ''queued''\<rparr>),
        enqueue ((prepared bigRequest rd)\<lparr>Status := ''queued''\<rparr>) fc)" for rd fc
    by (rule fresh_snapshot_admits) (simp_all add: b)
  show ?thesis
    by (simp add: run_def racingSubmissions_def adm enqueue_ledger prepared_fields b fresh_fields)
qed

text \<open>
  C8 as stated fails. A fresh node admits a task that declares the cpu cost -1, and its
  available cpu becomes 2; it admits a task that declares the energy cost 2, and its
  energy level becomes -1. And when two submissions with cpu cost 0.6 both read their
  snapshot from the fresh node, both pass the resource gate and the available cpu
  becomes -0.2.
\<close>

theorem ledger_ranges_counterexample:
  "fst (handleSubmitTask (Decoded negativeRequest) exampleReadings freshNode)
     = OK ((prepared negativeRequest exampleReadings)\<lparr>Status := ''queued''\<rparr>)
   \<and> availableCPU (run freshNode [Submit (Decoded negativeRequest) exampleReadings]) = 2
   \<and> fst (handleSubmitTask (Decoded thirstyRequest) exampleReadings freshNode)
     = OK ((prepared thirstyRequest exampleReadings)\<lparr>Status := ''queued''\<rparr>)
   \<and> energyLevel (run freshNode [Submit (Decoded thirstyRequest) exampleReadings]) = - 1
   \<and> availableCPU (run freshNode racingSubmissions) = - 0.2"
proof -
  have n: "CPUCost (applyDefaults negativeRequest) = - 1"
    "RAMCost (applyDefaults negativeRequest) = 0.05"
    "StorageCost (applyDefaults negativeRequest) = 10"
    "sint (Criticality negativeRequest) = 0"
    by (simp_all add: negativeRequest_def eval_defaults)
  have t: "CPUCost (applyDefaults thirstyRequest) = 0.05"
    "RAMCost (applyDefaults thirstyRequest) = 0.05"
    "StorageCost (applyDefaults thirstyRequest) = 10"
    "EnergyCost (applyDefaults thirstyRequest) = 2"
    "sint (Criticality thirstyRequest) = 0"
    by (simp_all add: thirstyRequest_def eval_defaults)
  have a: "handleSubmitTask (Decoded negativeRequest) exampleReadings freshNode
     = (OK ((prepared negativeRequest exampleReadings)\<lparr>Status := ''queued''\<rparr>),
        enqueue ((prepared negativeRequest exampleReadings)\<lparr>Status := ''queued''\<rparr>) freshNode)"
    by (rule fresh_admits) (simp_all add: n)
  have b: "handleSubmitTask (Decoded thirstyRequest) exampleReadings freshNode
     = (OK ((prepared thirstyRequest exampleReadings)\<lparr>Status := ''queued''\<rparr>),
        enqueue ((prepared thirstyRequest exampleReadings)\<lparr>Status := ''queued''\<rparr>) freshNode)"
    by (rule fresh_admits) (simp_all add: t)
  have "availableCPU (run freshNode [Submit (Decoded negativeRequest) exampleReadings]) = 2"
    using enqueue_ledger [of "(prepared negativeRequest exampleReadings)\<lparr>Status := ''queued''\<rparr>"
        freshNode]
    by (simp add: run_def a fresh_fields prepared_fields n)
  moreover have "energyLevel (run freshNode [Submit (Decoded thirstyRequest) exampleReadings]) = - 1"
    using enqueue_ledger [of "(prepared thirstyRequest exampleReadings)\<lparr>Status := ''queued''\<rparr>"
        freshNode]
    by (simp add: run_def b fresh_fields prepared_fields t)
  ultimately show ?thesis
    using a b racing_cpu by simp
qed

end
